theory Spec2Isabelle
  imports Main "HOL-Library.Stream"
begin

section \<open>Go channels\<close>

text \<open>
  The file \<^verbatim>\<open>utils/signal.go\<close> is written against three channels: the
  package-level \<^verbatim>\<open>shutdownRequestChannel\<close> (\<^verbatim>\<open>make(chan struct{})\<close>), the
  \<^verbatim>\<open>interruptChannel\<close> each listener goroutine makes for itself
  (\<^verbatim>\<open>make(chan os.Signal, 1)\<close>) and the channel \<^verbatim>\<open>c\<close> that
  \<^verbatim>\<open>InterruptListener\<close> returns. A channel is modelled by the fields of the Go
  runtime's \<^verbatim>\<open>hchan\<close> that decide what a send, a receive and a close do:
  the capacity \<^verbatim>\<open>dataqsiz\<close>, the buffered elements \<^verbatim>\<open>buf\<close> (oldest first), the
  values of the senders parked on the channel \<^verbatim>\<open>sendq\<close> (oldest first) and the
  \<^verbatim>\<open>closed\<close> flag. Receivers are the goroutines of the model itself; a goroutine
  blocked in a receive is one whose receive is tried again each time it is scheduled.
\<close>

record 'a hchan =
  dataqsiz :: nat
  buf :: "'a list"
  sendq :: "'a list"
  closed :: bool

datatype panic =
    close_of_closed_channel
  | send_on_closed_channel
  | nil_pointer_dereference

text \<open>\<^verbatim>\<open>make(chan T, n)\<close>; \<^verbatim>\<open>make(chan T)\<close> is \<^verbatim>\<open>makechan 0\<close>.\<close>

definition makechan :: "nat \<Rightarrow> 'a hchan" where
  "makechan n = \<lparr>dataqsiz = n, buf = [], sendq = [], closed = False\<rparr>"

text \<open>
  \<^verbatim>\<open>close(c)\<close>: closing a closed channel panics, and so does every sender parked
  on the channel being closed.
\<close>

definition closechan :: "'a hchan \<Rightarrow> panic + 'a hchan" where
  "closechan c =
     (if closed c then Inl close_of_closed_channel
      else if sendq c \<noteq> [] then Inl send_on_closed_channel
      else Inr (c\<lparr>closed := True\<rparr>))"

text \<open>
  The send statement \<^verbatim>\<open>c <- v\<close>: the value goes into the buffer when there is
  room; otherwise the sender parks with its value until a receiver takes it.
\<close>

definition chansend :: "'a \<Rightarrow> 'a hchan \<Rightarrow> panic + 'a hchan" where
  "chansend v c =
     (if closed c then Inl send_on_closed_channel
      else if length (buf c) < dataqsiz c then Inr (c\<lparr>buf := buf c @ [v]\<rparr>)
      else Inr (c\<lparr>sendq := sendq c @ [v]\<rparr>))"

text \<open>
  The non-blocking send \<^verbatim>\<open>select { case c <- v: default: }\<close>, which is how
  package \<^verbatim>\<open>os/signal\<close> delivers a signal to a channel registered with
  \<^verbatim>\<open>signal.Notify\<close>: the value is dropped when the buffer has no room. The
  result says whether the value was taken. Since no goroutine of the model waits
  inside a receive, a value that Go would hand to a receiver already waiting shows
  here as a value buffered until that receiver runs.
\<close>

definition selectnbsend :: "'a \<Rightarrow> 'a hchan \<Rightarrow> panic + (bool \<times> 'a hchan)" where
  "selectnbsend v c =
     (if closed c then Inl send_on_closed_channel
      else if length (buf c) < dataqsiz c then Inr (True, c\<lparr>buf := buf c @ [v]\<rparr>)
      else Inr (False, c))"

text \<open>
  One attempt at the receive \<^verbatim>\<open><-c\<close>. \<open>None\<close>: nothing is ready and the channel
  is open, the receive would block. \<open>Some (Some v, c')\<close>: \<open>v\<close> was received, from the
  buffer (a parked sender then moves its value into the freed slot) or, on an empty
  buffer, straight from the oldest parked sender. \<open>Some (None, c)\<close>: the channel is
  closed and drained, the receive yields the zero value and leaves the channel as it is.
\<close>

definition chanrecv :: "'a hchan \<Rightarrow> ('a option \<times> 'a hchan) option" where
  "chanrecv c =
     (case buf c of
        v # vs \<Rightarrow>
          (case sendq c of
             [] \<Rightarrow> Some (Some v, c\<lparr>buf := vs\<rparr>)
           | s # ss \<Rightarrow> Some (Some v, c\<lparr>buf := vs @ [s], sendq := ss\<rparr>))
      | [] \<Rightarrow>
          (case sendq c of
             s # ss \<Rightarrow> Some (Some s, c\<lparr>sendq := ss\<rparr>)
           | [] \<Rightarrow> if closed c then Some (None, c) else None))"

section \<open>Signals, log records, the select statement\<close>

datatype os_Signal = os_Interrupt | os_Kill | syscall_SIGTERM | syscall_SIGHUP

text \<open>\<^verbatim>\<open>sig.String()\<close>.\<close>

fun Signal_String :: "os_Signal \<Rightarrow> string" where
  "Signal_String os_Interrupt = ''interrupt''"
| "Signal_String os_Kill = ''killed''"
| "Signal_String syscall_SIGTERM = ''terminated''"
| "Signal_String syscall_SIGHUP = ''hangup''"

text \<open>\<^verbatim>\<open>log.Warn(msg, ctx...)\<close> appends one record to the process log.\<close>

datatype log_record = Warn string "(string \<times> string) list"

text \<open>Which case of a listener's select fired, with the value it received.\<close>

datatype event = Signal os_Signal | ShutdownRequest

datatype select_result =
    Blocked
  | Fired event "os_Signal hchan" "unit hchan"
  | NilSignal

text \<open>
  The select statement of lines 30-36, 43-49, 81-87 and 94-100:
  \<^verbatim>\<open>select { case sig := <-interruptChannel: ... case <-shutdownRequestChannel: ... }\<close>.
  It has no default case, so it blocks while neither channel is ready. When both are
  ready Go picks one at random; \<open>pick\<close> is that choice (\<open>True\<close> for the signal case).
  A closed \<^verbatim>\<open>interruptChannel\<close> would yield a nil signal, on which both bodies call
  \<^verbatim>\<open>sig.String()\<close>; a closed \<^verbatim>\<open>shutdownRequestChannel\<close> yields the zero
  \<^verbatim>\<open>struct{}\<close>, which the body does not look at.
\<close>

definition selectgo :: "bool \<Rightarrow> os_Signal hchan \<Rightarrow> unit hchan \<Rightarrow> select_result" where
  "selectgo pick ic sc =
     (case (chanrecv ic, chanrecv sc) of
        (None, None) \<Rightarrow> Blocked
      | (Some (None, ic'), None) \<Rightarrow> NilSignal
      | (Some (Some sig, ic'), None) \<Rightarrow> Fired (Signal sig) ic' sc
      | (None, Some (_, sc')) \<Rightarrow> Fired ShutdownRequest ic sc'
      | (Some (None, ic'), Some (_, sc')) \<Rightarrow>
          if pick then NilSignal else Fired ShutdownRequest ic sc'
      | (Some (Some sig, ic'), Some (_, sc')) \<Rightarrow>
          if pick then Fired (Signal sig) ic' sc else Fired ShutdownRequest ic sc')"

section \<open>The two listener goroutines\<close>

text \<open>
  Both goroutines have the same shape: subscribe, a first select, the one-shot
  notification, then \<^verbatim>\<open>for { select { ... } }\<close>. A goroutine that is past its
  subscription is parked at one of its two select statements.
\<close>

datatype select_stmt = first_select | repeat_select

text \<open>The log record written by the first select (lines 31-35 and 82-86).\<close>

fun first_msg :: "event \<Rightarrow> log_record" where
  "first_msg (Signal sig) = Warn ''received signal'' [(''sig'', Signal_String sig)]"
| "first_msg ShutdownRequest = Warn ''received shutdown request'' []"

text \<open>The log record written by the select in the loop (lines 44-48 and 95-99).\<close>

fun repeat_msg :: "event \<Rightarrow> log_record" where
  "repeat_msg (Signal sig) =
     Warn ''received signal (repeated)'' [(''sig'', Signal_String sig)]"
| "repeat_msg ShutdownRequest = Warn ''received shutdown request (repeated)'' []"

text \<open>
  The goroutine of \<^verbatim>\<open>InterruptListener\<close> (lines 24-51), resumed at the select it is
  parked at with the event that select received. \<open>c\<close> is the channel the closure
  captured. The result is the record logged, the select reached next and \<open>c\<close>.
\<close>

fun InterruptListener_func ::
  "select_stmt \<Rightarrow> event \<Rightarrow> unit hchan \<Rightarrow> panic + (log_record \<times> select_stmt \<times> unit hchan)" where
  "InterruptListener_func first_select e c =
     (case closechan c of
        Inl p \<Rightarrow> Inl p
      | Inr c' \<Rightarrow> Inr (first_msg e, repeat_select, c'))"
| "InterruptListener_func repeat_select e c = Inr (repeat_msg e, repeat_select, c)"

text \<open>\<^verbatim>\<open>InterruptRequested\<close> (lines 59-67): a receive with a default case.\<close>

definition InterruptRequested :: "unit hchan \<Rightarrow> bool \<times> unit hchan" where
  "InterruptRequested interrupted =
     (case chanrecv interrupted of
        Some (_, interrupted') \<Rightarrow> (True, interrupted')
      | None \<Rightarrow> (False, interrupted))"

text \<open>
  What one channel-based listener does with the sequence of events its selects
  receive, from the state \<open>(at, c, lg)\<close>: the select it is parked at, its channel
  \<open>c\<close> and the records it has logged.
\<close>

fun InterruptListener_observe ::
  "event list \<Rightarrow> select_stmt \<times> unit hchan \<times> log_record list \<Rightarrow>
     panic + (select_stmt \<times> unit hchan \<times> log_record list)" where
  "InterruptListener_observe [] s = Inr s"
| "InterruptListener_observe (e # es) (at, c, lg) =
     (case InterruptListener_func at e c of
        Inl p \<Rightarrow> Inl p
      | Inr (r, at', c') \<Rightarrow> InterruptListener_observe es (at', c', lg @ [r]))"

text \<open>The listener as \<^verbatim>\<open>InterruptListener()\<close> starts it: \<^verbatim>\<open>c := make(chan struct{})\<close>.\<close>

definition InterruptListener_start :: "select_stmt \<times> unit hchan \<times> log_record list" where
  "InterruptListener_start = (first_select, makechan 0, [])"

text \<open>Whether the handle is closed in a listener state; a panic has no handle state.\<close>

fun handle_closed ::
  "panic + (select_stmt \<times> unit hchan \<times> log_record list) \<Rightarrow> panic + bool" where
  "handle_closed (Inl p) = Inl p"
| "handle_closed (Inr (at, c, lg)) = Inr (closed c)"

text \<open>
  The goroutine body of \<^verbatim>\<open>InterruptListener\<close> run on the stream of events its
  selects receive: the first select, \<^verbatim>\<open>close(c)\<close>, then the loop of lines 42-50.
  The result is \<open>None\<close> when the goroutine never returns, \<open>Some (Inr ())\<close> when the
  function literal returns and \<open>Some (Inl p)\<close> when it panics.
\<close>

partial_function (option) InterruptListener_loop ::
  "event stream \<Rightarrow> unit hchan \<Rightarrow> (panic + unit) option" where
  "InterruptListener_loop evs c =
     (case InterruptListener_func repeat_select (shd evs) c of
        Inl p \<Rightarrow> Some (Inl p)
      | Inr (r, at', c') \<Rightarrow> InterruptListener_loop (stl evs) c')"

definition InterruptListener_goroutine :: "event stream \<Rightarrow> (panic + unit) option" where
  "InterruptListener_goroutine evs =
     (case InterruptListener_func first_select (shd evs) (makechan 0) of
        Inl p \<Rightarrow> Some (Inl p)
      | Inr (r, at', c') \<Rightarrow> InterruptListener_loop (stl evs) c')"

section \<open>The event feed\<close>

text \<open>
  Modelled from the spec: the type \<^verbatim>\<open>event.Feed\<close> of package
  \<^verbatim>\<open>github.com/ethereum/go-ethereum/event\<close>, whose code is not among the source
  files. The spec describes it as a broadcast feed where each subscriber receives an
  independent delivery of the same zero-payload event; subscribers registered before
  the send receive it, subscribers registered after it do not (no replay). \<open>inbox\<close>
  holds, for each subscriber in the order of registration, the number of deliveries
  it has received; \<open>nsent\<close> counts the \<^verbatim>\<open>Send\<close> calls made on the feed.
\<close>

record Feed =
  inbox :: "nat list"
  nsent :: nat

text \<open>Modelled from the spec: the zero value \<^verbatim>\<open>event.Feed{}\<close>, a feed without subscribers.\<close>

definition Feed_zero :: Feed where
  "Feed_zero = \<lparr>inbox = [], nsent = 0\<rparr>"

text \<open>
  Modelled from the spec: \<^verbatim>\<open>Feed.Subscribe\<close>, which registers one more subscriber;
  the result is the subscriber's position in \<open>inbox\<close>.
\<close>

definition Feed_Subscribe :: "Feed \<Rightarrow> nat \<times> Feed" where
  "Feed_Subscribe f = (length (inbox f), f\<lparr>inbox := inbox f @ [0]\<rparr>)"

text \<open>
  Modelled from the spec: \<^verbatim>\<open>Feed.Send\<close>, one delivery to every subscriber
  registered at the time of the call.
\<close>

definition Feed_Send :: "Feed \<Rightarrow> Feed" where
  "Feed_Send f = f\<lparr>inbox := map Suc (inbox f), nsent := Suc (nsent f)\<rparr>"

text \<open>
  The goroutine of \<^verbatim>\<open>StartInterrupteListener\<close> (lines 75-102), resumed at the select
  it is parked at with the event that select received; \<open>f\<close> is the package-level
  \<^verbatim>\<open>InterruptFeed\<close>.
\<close>

fun StartInterrupteListener_func ::
  "select_stmt \<Rightarrow> event \<Rightarrow> Feed \<Rightarrow> log_record \<times> select_stmt \<times> Feed" where
  "StartInterrupteListener_func first_select e f = (first_msg e, repeat_select, Feed_Send f)"
| "StartInterrupteListener_func repeat_select e f = (repeat_msg e, repeat_select, f)"

text \<open>
  What the feed sees: the events the listener's selects receive, interleaved with the
  \<^verbatim>\<open>InterruptFeed.Subscribe\<close> calls of other subsystems.
\<close>

datatype feed_op = Received event | Subscribed

fun StartInterrupteListener_observe ::
  "feed_op list \<Rightarrow> select_stmt \<times> Feed \<times> log_record list \<Rightarrow>
     select_stmt \<times> Feed \<times> log_record list" where
  "StartInterrupteListener_observe [] s = s"
| "StartInterrupteListener_observe (Subscribed # ops) (at, f, lg) =
     StartInterrupteListener_observe ops (at, snd (Feed_Subscribe f), lg)"
| "StartInterrupteListener_observe (Received e # ops) (at, f, lg) =
     (case StartInterrupteListener_func at e f of
        (r, at', f') \<Rightarrow> StartInterrupteListener_observe ops (at', f', lg @ [r]))"

text \<open>The events among the operations on the feed, in order.\<close>

fun events_of :: "feed_op list \<Rightarrow> event list" where
  "events_of [] = []"
| "events_of (Received e # ops) = e # events_of ops"
| "events_of (Subscribed # ops) = events_of ops"

text \<open>The listener as \<^verbatim>\<open>StartInterrupteListener()\<close> starts it, on \<^verbatim>\<open>event.Feed{}\<close>.\<close>

definition StartInterrupteListener_start :: "select_stmt \<times> Feed \<times> log_record list" where
  "StartInterrupteListener_start = (first_select, Feed_zero, [])"

text \<open>The loop of lines 93-101 and the whole goroutine body, on a stream of events.\<close>

partial_function (option) StartInterrupteListener_loop ::
  "event stream \<Rightarrow> Feed \<Rightarrow> (panic + unit) option" where
  "StartInterrupteListener_loop evs f =
     (case StartInterrupteListener_func repeat_select (shd evs) f of
        (r, at', f') \<Rightarrow> StartInterrupteListener_loop (stl evs) f')"

definition StartInterrupteListener_goroutine ::
  "event stream \<Rightarrow> Feed \<Rightarrow> (panic + unit) option" where
  "StartInterrupteListener_goroutine evs f =
     (case StartInterrupteListener_func first_select (shd evs) f of
        (r, at', f') \<Rightarrow> StartInterrupteListener_loop (stl evs) f')"

section \<open>The process: package state, goroutines, scheduling\<close>

text \<open>
  A listener goroutine is the function literal it runs together with what the closure
  captured: the goroutine of \<^verbatim>\<open>InterruptListener\<close> captured its channel \<^verbatim>\<open>c\<close>, the
  goroutine of \<^verbatim>\<open>StartInterrupteListener\<close> captured nothing. The channel lives in
  the closure; the handle \<^verbatim>\<open>InterruptListener\<close> returns refers to it by the
  position of the goroutine.
\<close>

datatype closure =
    InterruptListener_closure "unit hchan"
  | StartInterrupteListener_closure

datatype pc = Entry | Select select_stmt

text \<open>
  \<open>interruptChannel\<close> is the goroutine's local of lines 25 and 76, \<open>None\<close> until the
  goroutine has run that line; \<open>notify\<close> is the signal set that
  \<^verbatim>\<open>signal.Notify\<close> registered for it (lines 26 and 77), a copy of
  \<^verbatim>\<open>interruptSignals\<close> taken at the call.
\<close>

record goroutine =
  closure :: closure
  pc :: pc
  interruptChannel :: "os_Signal hchan option"
  notify :: "os_Signal list"

record world =
  shutdownRequestChannel :: "unit hchan"
  interruptSignals :: "os_Signal list"
  InterruptFeed :: Feed
  goroutines :: "goroutine list"
  logged :: "log_record list"

text \<open>The package-level variables as lines 13, 17 and 72 initialise them.\<close>

definition boot :: world where
  "boot = \<lparr>shutdownRequestChannel = makechan 0, interruptSignals = [os_Interrupt],
            InterruptFeed = Feed_zero, goroutines = [], logged = []\<rparr>"

text \<open>The statement \<^verbatim>\<open>go func() { ... }()\<close>: a new goroutine at the entry of its body.\<close>

definition go :: "closure \<Rightarrow> goroutine" where
  "go cl = \<lparr>closure = cl, pc = Entry, interruptChannel = None, notify = []\<rparr>"

text \<open>
  \<^verbatim>\<open>InterruptListener()\<close> (lines 22-54): makes \<^verbatim>\<open>c\<close>, starts the goroutine and
  returns the handle.
\<close>

definition InterruptListener :: "world \<Rightarrow> nat \<times> world" where
  "InterruptListener w =
     (length (goroutines w),
      w\<lparr>goroutines := goroutines w @ [go (InterruptListener_closure (makechan 0))]\<rparr>)"

text \<open>\<^verbatim>\<open>StartInterrupteListener()\<close> (lines 74-103).\<close>

definition StartInterrupteListener :: "world \<Rightarrow> world" where
  "StartInterrupteListener w =
     w\<lparr>goroutines := goroutines w @ [go StartInterrupteListener_closure]\<rparr>"

text \<open>
  The channel behind a handle; a handle that names no channel of
  \<^verbatim>\<open>InterruptListener\<close> reads as a nil channel.
\<close>

definition handle_chan :: "nat \<Rightarrow> world \<Rightarrow> unit hchan option" where
  "handle_chan h w =
     (if h < length (goroutines w) then
        (case closure (goroutines w ! h) of
           InterruptListener_closure c \<Rightarrow> Some c
         | StartInterrupteListener_closure \<Rightarrow> None)
      else None)"

text \<open>
  A caller runs \<^verbatim>\<open>InterruptRequested(h)\<close>. The receive inside it acts on the channel,
  so the channel it leaves is stored back. On a nil channel the receive is never
  ready and the default case answers false.
\<close>

definition poll :: "nat \<Rightarrow> world \<Rightarrow> bool \<times> world" where
  "poll h w =
     (case handle_chan h w of
        None \<Rightarrow> (False, w)
      | Some c \<Rightarrow>
          (case InterruptRequested c of
             (b, c') \<Rightarrow>
               (b, w\<lparr>goroutines :=
                       (goroutines w)[h := (goroutines w ! h)\<lparr>closure := InterruptListener_closure c'\<rparr>]\<rparr>)))"

text \<open>
  Package \<^verbatim>\<open>os/signal\<close> on the arrival of \<open>sig\<close>: a non-blocking send to the
  channel of every goroutine whose \<^verbatim>\<open>signal.Notify\<close> registration wants \<open>sig\<close>.
\<close>

definition signal_process :: "os_Signal \<Rightarrow> goroutine \<Rightarrow> panic + goroutine" where
  "signal_process sig g =
     (case interruptChannel g of
        None \<Rightarrow> Inr g
      | Some ic \<Rightarrow>
          if sig \<in> set (notify g) then
            (case selectnbsend sig ic of
               Inl p \<Rightarrow> Inl p
             | Inr (taken, ic') \<Rightarrow> Inr (g\<lparr>interruptChannel := Some ic'\<rparr>))
          else Inr g)"

fun sequence_sum :: "('e + 'a) list \<Rightarrow> 'e + 'a list" where
  "sequence_sum [] = Inr []"
| "sequence_sum (x # xs) =
     (case x of
        Inl e \<Rightarrow> Inl e
      | Inr a \<Rightarrow> (case sequence_sum xs of Inl e \<Rightarrow> Inl e | Inr as \<Rightarrow> Inr (a # as)))"

definition OS_deliver :: "os_Signal \<Rightarrow> world \<Rightarrow> panic + world" where
  "OS_deliver sig w =
     (case sequence_sum (map (signal_process sig) (goroutines w)) of
        Inl p \<Rightarrow> Inl p
      | Inr gs \<Rightarrow> Inr (w\<lparr>goroutines := gs\<rparr>))"

text \<open>
  Modelled from the spec: the request-shutdown operation, whose code is not among the
  source files (nothing in \<^verbatim>\<open>utils/signal.go\<close> sends on
  \<^verbatim>\<open>shutdownRequestChannel\<close>). The spec gives it no parameter and no result, and
  as its effect the waking of one pending wait on the shared trigger; line 11 says the
  channel is used to initiate shutdown from a subsystem. On the channel of line 13
  that is the send statement \<^verbatim>\<open>shutdownRequestChannel <- struct{}{}\<close>.
\<close>

definition request_shutdown :: "world \<Rightarrow> panic + world" where
  "request_shutdown w =
     (case chansend () (shutdownRequestChannel w) of
        Inl p \<Rightarrow> Inl p
      | Inr sc \<Rightarrow> Inr (w\<lparr>shutdownRequestChannel := sc\<rparr>))"

text \<open>
  A goroutine resumed at select \<open>at\<close> with event \<open>e\<close>: the body of its function
  literal up to the next select. The result is the record logged, the select reached,
  the closure and the feed.
\<close>

fun resume ::
  "closure \<Rightarrow> select_stmt \<Rightarrow> event \<Rightarrow> Feed \<Rightarrow> panic + (log_record \<times> select_stmt \<times> closure \<times> Feed)" where
  "resume (InterruptListener_closure c) at e f =
     (case InterruptListener_func at e c of
        Inl p \<Rightarrow> Inl p
      | Inr (r, at', c') \<Rightarrow> Inr (r, at', InterruptListener_closure c', f))"
| "resume StartInterrupteListener_closure at e f =
     (case StartInterrupteListener_func at e f of
        (r, at', f') \<Rightarrow> Inr (r, at', StartInterrupteListener_closure, f'))"

text \<open>
  Lines 25-26 and 76-77: the goroutine makes its \<^verbatim>\<open>interruptChannel\<close> with
  capacity one, registers it with \<^verbatim>\<open>signal.Notify\<close> for the signals
  \<^verbatim>\<open>interruptSignals\<close> holds at that moment, and reaches its first select.
\<close>

definition subscribe :: "os_Signal list \<Rightarrow> goroutine \<Rightarrow> goroutine" where
  "subscribe sigs g =
     g\<lparr>pc := Select first_select, interruptChannel := Some (makechan 1), notify := sigs\<rparr>"

text \<open>
  The select of goroutine \<open>i\<close>, parked at \<open>at\<close>, received \<open>e\<close> and left the
  channels \<open>ic'\<close> and \<open>sc'\<close>: the goroutine runs on to its next select.
\<close>

definition fire ::
  "nat \<Rightarrow> select_stmt \<Rightarrow> event \<Rightarrow> os_Signal hchan \<Rightarrow> unit hchan \<Rightarrow> world \<Rightarrow> panic + world" where
  "fire i at e ic' sc' w =
     (case resume (closure (goroutines w ! i)) at e (InterruptFeed w) of
        Inl p \<Rightarrow> Inl p
      | Inr (r, at', cl', f') \<Rightarrow>
          Inr (w\<lparr>shutdownRequestChannel := sc', InterruptFeed := f',
                  logged := logged w @ [r],
                  goroutines := (goroutines w)[i := (goroutines w ! i)\<lparr>closure := cl',
                    pc := Select at', interruptChannel := Some ic'\<rparr>]\<rparr>))"

text \<open>
  The scheduler runs goroutine \<open>i\<close> until it next blocks. From the entry it
  subscribes. At a select it tries the select: when that blocks nothing changes,
  otherwise the goroutine runs on to its next select. A goroutine at a select has
  made its \<^verbatim>\<open>interruptChannel\<close> (line 25 comes first); the case of a select
  without one is there for totality only and is never reached.
\<close>

definition sched :: "nat \<Rightarrow> bool \<Rightarrow> world \<Rightarrow> panic + world" where
  "sched i pick w =
     (if i < length (goroutines w) then
        (case pc (goroutines w ! i) of
           Entry \<Rightarrow>
             Inr (w\<lparr>goroutines :=
                     (goroutines w)[i := subscribe (interruptSignals w) (goroutines w ! i)]\<rparr>)
         | Select at \<Rightarrow>
             (case interruptChannel (goroutines w ! i) of
                None \<Rightarrow> Inr w
              | Some ic \<Rightarrow>
                  (case selectgo pick ic (shutdownRequestChannel w) of
                     Blocked \<Rightarrow> Inr w
                   | NilSignal \<Rightarrow> Inl nil_pointer_dereference
                   | Fired e ic' sc' \<Rightarrow> fire i at e ic' sc' w)))
      else Inr w)"

text \<open>What can happen to the process, one action at a time.\<close>

datatype action =
    Call_InterruptListener
  | Call_StartInterrupteListener
  | Call_InterruptRequested nat
  | Call_Subscribe
  | Request_shutdown
  | OS_signal os_Signal
  | Sched nat bool

fun step :: "action \<Rightarrow> world \<Rightarrow> panic + world" where
  "step Call_InterruptListener w = Inr (snd (InterruptListener w))"
| "step Call_StartInterrupteListener w = Inr (StartInterrupteListener w)"
| "step (Call_InterruptRequested h) w = Inr (snd (poll h w))"
| "step Call_Subscribe w = Inr (w\<lparr>InterruptFeed := snd (Feed_Subscribe (InterruptFeed w))\<rparr>)"
| "step Request_shutdown w = request_shutdown w"
| "step (OS_signal sig) w = OS_deliver sig w"
| "step (Sched i pick) w = sched i pick w"

fun run :: "action list \<Rightarrow> world \<Rightarrow> panic + world" where
  "run [] w = Inr w"
| "run (a # as) w = (case step a w of Inl p \<Rightarrow> Inl p | Inr w' \<Rightarrow> run as w')"

text \<open>
  The shape every channel of a running process has: the shutdown channel is open,
  unbuffered and holds nothing; a listener's signal channel exists once the goroutine
  is past its entry, is open, has capacity one and no parked sender; the channel \<open>c\<close>
  of a channel-based listener is open exactly while the listener is at its first
  select, and never holds a value or a sender.
\<close>

definition sc_ok :: "unit hchan \<Rightarrow> bool" where
  "sc_ok sc = (dataqsiz sc = 0 \<and> buf sc = [] \<and> \<not> closed sc)"

definition ic_ok :: "os_Signal hchan \<Rightarrow> bool" where
  "ic_ok ic = (dataqsiz ic = 1 \<and> length (buf ic) \<le> 1 \<and> sendq ic = [] \<and> \<not> closed ic)"

fun handle_ok :: "closure \<Rightarrow> pc \<Rightarrow> bool" where
  "handle_ok (InterruptListener_closure c) at =
     (dataqsiz c = 0 \<and> buf c = [] \<and> sendq c = [] \<and> closed c = (at = Select repeat_select))"
| "handle_ok StartInterrupteListener_closure at = True"

definition g_ok :: "goroutine \<Rightarrow> bool" where
  "g_ok g =
     ((case interruptChannel g of
         None \<Rightarrow> pc g = Entry
       | Some ic \<Rightarrow> pc g \<noteq> Entry \<and> ic_ok ic)
      \<and> handle_ok (closure g) (pc g))"

definition wf :: "world \<Rightarrow> bool" where
  "wf w = (sc_ok (shutdownRequestChannel w) \<and> list_all g_ok (goroutines w))"

text \<open>The raises pending on the shutdown channel: buffered or parked.\<close>

definition pending :: "world \<Rightarrow> nat" where
  "pending w =
     length (buf (shutdownRequestChannel w)) + length (sendq (shutdownRequestChannel w))"

text \<open>The records a listener writes when its select received a shutdown request.\<close>

definition is_shutdown_record :: "log_record \<Rightarrow> bool" where
  "is_shutdown_record r =
     (r = first_msg ShutdownRequest \<or> r = repeat_msg ShutdownRequest)"

text \<open>How many of the records logged so far report a shutdown request.\<close>

definition shutdown_records :: "world \<Rightarrow> nat" where
  "shutdown_records w = length (filter is_shutdown_record (logged w))"

text \<open>
  Goroutine \<open>i\<close> is parked: it is at one of its selects and neither channel of the
  select is ready.
\<close>

definition parked :: "nat \<Rightarrow> world \<Rightarrow> bool" where
  "parked i w =
     (i < length (goroutines w) \<and>
      (case pc (goroutines w ! i) of
         Entry \<Rightarrow> False
       | Select at \<Rightarrow>
           (case interruptChannel (goroutines w ! i) of
              None \<Rightarrow> True
            | Some ic \<Rightarrow> selectgo True ic (shutdownRequestChannel w) = Blocked)))"

text \<open>A feed-based listener that has fired: it is at the select inside its loop.\<close>

definition fired_feed_listener :: "goroutine \<Rightarrow> bool" where
  "fired_feed_listener g =
     (closure g = StartInterrupteListener_closure \<and> pc g = Select repeat_select)"

text \<open>
  The sends on \<^verbatim>\<open>InterruptFeed\<close> are the feed-based listeners that have fired, and
  no subscriber holds more deliveries than there were sends.
\<close>

definition feed_ok :: "world \<Rightarrow> bool" where
  "feed_ok w =
     (nsent (InterruptFeed w) = length (filter fired_feed_listener (goroutines w))
      \<and> list_all (\<lambda>d. d \<le> nsent (InterruptFeed w)) (inbox (InterruptFeed w)))"

section \<open>The channel-based listener\<close>

lemma InterruptListener_observe_repeat:
  "InterruptListener_observe es (repeat_select, c, lg) =
     Inr (repeat_select, c, lg @ map repeat_msg es)"
  by (induction es arbitrary: lg) simp_all

lemma InterruptListener_observe_first:
  "InterruptListener_observe (e # es) InterruptListener_start =
     Inr (repeat_select, (makechan 0)\<lparr>closed := True\<rparr>, first_msg e # map repeat_msg es)"
  by (simp add: InterruptListener_start_def closechan_def makechan_def
      InterruptListener_observe_repeat)

section \<open>The feed-based listener\<close>

lemma StartInterrupteListener_observe_append:
  "StartInterrupteListener_observe (xs @ ys) s =
     StartInterrupteListener_observe ys (StartInterrupteListener_observe xs s)"
proof (induction xs arbitrary: s)
  case Nil
  then show ?case by simp
next
  case (Cons a xs)
  obtain at f lg where s: "s = (at, f, lg)" by (cases s) auto
  show ?case by (cases a) (simp_all add: s Cons split: prod.splits)
qed

lemma StartInterrupteListener_observe_Subscribed:
  "StartInterrupteListener_observe (replicate m Subscribed) (at, f, lg) =
     (at, f\<lparr>inbox := inbox f @ replicate m 0\<rparr>, lg)"
  by (induction m arbitrary: f) (simp_all add: Feed_Subscribe_def replicate_app_Cons_same)

lemma StartInterrupteListener_observe_fired:
  "StartInterrupteListener_observe ops (repeat_select, f, lg) =
     (repeat_select, f\<lparr>inbox := inbox f @ replicate (count_list ops Subscribed) 0\<rparr>,
      lg @ map repeat_msg (events_of ops))"
proof (induction ops arbitrary: f lg)
  case Nil
  then show ?case by simp
next
  case (Cons a ops)
  then show ?case by (cases a) (simp_all add: Feed_Subscribe_def replicate_app_Cons_same)
qed

lemma StartInterrupteListener_observe_first:
  "StartInterrupteListener_observe (replicate m Subscribed @ Received e # ops)
       (first_select, f, lg) =
     (repeat_select,
      \<lparr>inbox = map Suc (inbox f) @ replicate m 1 @ replicate (count_list ops Subscribed) 0,
       nsent = Suc (nsent f)\<rparr>,
      lg @ first_msg e # map repeat_msg (events_of ops))"
  by (simp add: StartInterrupteListener_observe_append StartInterrupteListener_observe_Subscribed
      StartInterrupteListener_observe_fired Feed_Send_def)

section \<open>The loops never return\<close>

lemma InterruptListener_loop_None: "InterruptListener_loop evs c = None"
proof (cases "InterruptListener_loop evs c")
  case None
  then show ?thesis .
next
  case (Some y)
  have False
    by (rule InterruptListener_loop.raw_induct [where P = "\<lambda>_ _ _. False", OF _ Some])
      (simp split: sum.splits)
  then show ?thesis ..
qed

lemma StartInterrupteListener_loop_None: "StartInterrupteListener_loop evs f = None"
proof (cases "StartInterrupteListener_loop evs f")
  case None
  then show ?thesis .
next
  case (Some y)
  have False
    by (rule StartInterrupteListener_loop.raw_induct [where P = "\<lambda>_ _ _. False", OF _ Some])
      (simp split: prod.splits)
  then show ?thesis ..
qed

section \<open>Every reachable state is well formed\<close>

lemma sequence_sum_Inr: "sequence_sum xs = Inr ys \<Longrightarrow> xs = map Inr ys"
  by (induction xs arbitrary: ys) (auto split: sum.splits)

lemma wf_boot: "wf boot"
  by (simp add: wf_def boot_def sc_ok_def makechan_def)

lemma g_ok_go: "g_ok (go (InterruptListener_closure (makechan 0)))" "g_ok (go StartInterrupteListener_closure)"
  by (simp_all add: g_ok_def go_def makechan_def)

lemma wf_InterruptListener: "wf w \<Longrightarrow> wf (snd (InterruptListener w))"
  by (simp add: wf_def InterruptListener_def g_ok_go)

lemma wf_StartInterrupteListener: "wf w \<Longrightarrow> wf (StartInterrupteListener w)"
  by (simp add: wf_def StartInterrupteListener_def g_ok_go)

lemma InterruptRequested_ok:
  "handle_ok (InterruptListener_closure c) at \<Longrightarrow> InterruptRequested c = (closed c, c)"
  by (simp add: InterruptRequested_def chanrecv_def)

lemma wf_nth: "wf w \<Longrightarrow> i < length (goroutines w) \<Longrightarrow> g_ok (goroutines w ! i)"
  by (simp add: wf_def list_all_length)

lemma poll_wf:
  assumes "wf w"
  shows "poll h w = (case handle_chan h w of None \<Rightarrow> False | Some c \<Rightarrow> closed c, w)"
proof (cases "handle_chan h w")
  case None
  then show ?thesis by (simp add: poll_def)
next
  case (Some c)
  then have h: "h < length (goroutines w)" and cl: "closure (goroutines w ! h) = InterruptListener_closure c"
    by (auto simp: handle_chan_def split: if_splits closure.splits)
  from wf_nth [OF assms h] cl have "handle_ok (InterruptListener_closure c) (pc (goroutines w ! h))"
    by (simp add: g_ok_def)
  then have "InterruptRequested c = (closed c, c)" by (rule InterruptRequested_ok)
  moreover have "(goroutines w)[h := (goroutines w ! h)\<lparr>closure := InterruptListener_closure c\<rparr>] = goroutines w"
    using cl [symmetric] by (simp add: list_update_same_conv h)
  ultimately show ?thesis using Some by (simp add: poll_def)
qed

lemma signal_process_ok:
  assumes "g_ok g"
  shows "\<exists>g'. signal_process sig g = Inr g' \<and> g_ok g' \<and> pc g' = pc g \<and> closure g' = closure g \<and> notify g' = notify g"
  using assms
  by (auto simp: signal_process_def g_ok_def ic_ok_def selectnbsend_def split: option.splits)

lemma list_all_sequence:
  assumes "list_all P xs" and "\<And>x. P x \<Longrightarrow> \<exists>y. f x = Inr y \<and> Q y"
  shows "\<exists>ys. sequence_sum (map f xs) = Inr ys \<and> list_all Q ys"
  using assms(1)
proof (induction xs)
  case Nil
  then show ?case by simp
next
  case (Cons x xs)
  then obtain ys where ys: "sequence_sum (map f xs) = Inr ys" "list_all Q ys" by auto
  from Cons.prems obtain y where "f x = Inr y" "Q y" using assms(2) by auto
  with ys show ?case by simp
qed

lemma wf_OS_deliver: 
  assumes "wf w" shows "\<exists>w'. OS_deliver sig w = Inr w' \<and> wf w'"
proof -
  from assms have "list_all g_ok (goroutines w)" by (simp add: wf_def)
  then obtain gs where "sequence_sum (map (signal_process sig) (goroutines w)) = Inr gs" "list_all g_ok gs"
    using list_all_sequence [where P = g_ok and Q = g_ok and f = "signal_process sig"] signal_process_ok
    by blast
  with assms show ?thesis by (simp add: OS_deliver_def wf_def)
qed

lemma wf_request_shutdown:
  assumes "wf w" shows "\<exists>w'. request_shutdown w = Inr w' \<and> wf w'"
  using assms by (simp add: request_shutdown_def chansend_def wf_def sc_ok_def)

lemma selectgo_ok:
  assumes "ic_ok ic" "sc_ok sc"
  shows "selectgo pick ic sc = Blocked \<or> (\<exists>e ic' sc'. selectgo pick ic sc = Fired e ic' sc' \<and> ic_ok ic' \<and> sc_ok sc')"
  using assms
  by (auto simp: selectgo_def chanrecv_def ic_ok_def sc_ok_def split: list.splits)




lemma resume_ok:
  assumes "handle_ok cl (Select at)"
  shows "\<exists>r at' cl' f'. resume cl at e f = Inr (r, at', cl', f') \<and> handle_ok cl' (Select at')"
  using assms
  by (cases cl; cases at) (auto simp: closechan_def)



lemma list_all_update: "list_all P xs \<Longrightarrow> P x \<Longrightarrow> list_all P (xs[i := x])"
proof -
  assume a: "list_all P xs" "P x"
  have "P (xs[i := x] ! n)" if "n < length xs" for n
    using a that by (cases "n = i") (simp_all add: list_all_length)
  then show ?thesis by (simp add: list_all_length)
qed


lemma sched_out_of_range: "\<not> i < length (goroutines w) \<Longrightarrow> sched i pick w = Inr w"
  by (simp add: sched_def)

lemma sched_Entry:
  "i < length (goroutines w) \<Longrightarrow> pc (goroutines w ! i) = Entry \<Longrightarrow>
   sched i pick w =
     Inr (w\<lparr>goroutines := (goroutines w)[i := subscribe (interruptSignals w) (goroutines w ! i)]\<rparr>)"
  by (simp add: sched_def)

lemma sched_Select:
  "i < length (goroutines w) \<Longrightarrow> pc (goroutines w ! i) = Select at \<Longrightarrow>
   interruptChannel (goroutines w ! i) = Some ic \<Longrightarrow>
   sched i pick w =
     (case selectgo pick ic (shutdownRequestChannel w) of
        Blocked \<Rightarrow> Inr w
      | NilSignal \<Rightarrow> Inl nil_pointer_dereference
      | Fired e ic' sc' \<Rightarrow> fire i at e ic' sc' w)"
  by (simp add: sched_def)



lemma fire_ok:
  assumes "wf w" "i < length (goroutines w)" "pc (goroutines w ! i) = Select at"
    and "ic_ok ic'" "sc_ok sc'"
  shows "\<exists>w'. fire i at e ic' sc' w = Inr w' \<and> wf w'"
proof -
  let ?g = "goroutines w ! i"
  have g: "g_ok ?g" using assms(1,2) by (rule wf_nth)
  with assms(3) have h: "handle_ok (closure ?g) (Select at)" by (simp add: g_ok_def)
  from resume_ok [OF h, of e "InterruptFeed w"] obtain r at' cl' f' where
    r: "resume (closure ?g) at e (InterruptFeed w) = Inr (r, at', cl', f')"
       "handle_ok cl' (Select at')"
    by blast
  have "g_ok (?g\<lparr>closure := cl', pc := Select at', interruptChannel := Some ic'\<rparr>)"
    using r(2) assms(4) by (simp add: g_ok_def)
  moreover have "list_all g_ok (goroutines w)" using assms(1) by (simp add: wf_def)
  ultimately show ?thesis using r(1) assms(5)
    by (simp add: fire_def wf_def list_all_update)
qed

lemma subscribe_ok: "g_ok g \<Longrightarrow> pc g = Entry \<Longrightarrow> g_ok (subscribe sigs g)"
  by (cases "closure g") (auto simp: g_ok_def subscribe_def ic_ok_def makechan_def split: option.splits)

lemma wf_sched:
  assumes "wf w" shows "\<exists>w'. sched i pick w = Inr w' \<and> wf w'"
proof (cases "i < length (goroutines w)")
  case False
  with assms show ?thesis by (simp add: sched_out_of_range)
next
  case True
  let ?g = "goroutines w ! i"
  have g: "g_ok ?g" using assms True by (rule wf_nth)
  have sc: "sc_ok (shutdownRequestChannel w)" and all: "list_all g_ok (goroutines w)"
    using assms by (simp_all add: wf_def)
  show ?thesis
  proof (cases "pc ?g")
    case Entry
    then show ?thesis using True sc all subscribe_ok [OF g Entry]
      by (simp add: sched_Entry wf_def list_all_update)
  next
    case (Select at)
    with g obtain ic where ic: "interruptChannel ?g = Some ic" "ic_ok ic"
      by (auto simp: g_ok_def split: option.splits)
    from selectgo_ok [OF ic(2) sc, of pick] show ?thesis
    proof
      assume "selectgo pick ic (shutdownRequestChannel w) = Blocked"
      then show ?thesis using assms by (simp add: sched_Select [OF True Select ic(1)])
    next
      assume "\<exists>e ic' sc'. selectgo pick ic (shutdownRequestChannel w) = Fired e ic' sc'
                \<and> ic_ok ic' \<and> sc_ok sc'"
      then obtain e ic' sc' where
        f: "selectgo pick ic (shutdownRequestChannel w) = Fired e ic' sc'" "ic_ok ic'" "sc_ok sc'"
        by blast
      from fire_ok [OF assms True Select f(2,3)] show ?thesis
        by (simp add: sched_Select [OF True Select ic(1)] f(1))
    qed
  qed
qed

lemma wf_poll: "wf w \<Longrightarrow> wf (snd (poll h w))"
  by (simp add: poll_wf)

lemma wf_Subscribe: "wf w \<Longrightarrow> wf (w\<lparr>InterruptFeed := f\<rparr>)"
  by (simp add: wf_def)

lemma wf_step: "wf w \<Longrightarrow> \<exists>w'. step a w = Inr w' \<and> wf w'"
  by (cases a) (simp_all add: wf_InterruptListener wf_StartInterrupteListener wf_poll
      wf_request_shutdown wf_OS_deliver wf_sched wf_Subscribe)

lemma wf_run: "wf w \<Longrightarrow> \<exists>w'. run tr w = Inr w' \<and> wf w'"
proof (induction tr arbitrary: w)
  case Nil
  then show ?case by simp
next
  case (Cons a tr)
  from wf_step [OF Cons.prems, of a] obtain w1 where "step a w = Inr w1" "wf w1" by blast
  with Cons.IH [of w1] show ?case by simp
qed

section \<open>What one step changes\<close>

lemma sched_cases:
  assumes "sched i pick w = Inr w'"
  obtains (idle) "w' = w"
  | (entry) "i < length (goroutines w)" "pc (goroutines w ! i) = Entry"
      "w' = w\<lparr>goroutines := (goroutines w)[i := subscribe (interruptSignals w) (goroutines w ! i)]\<rparr>"
  | (fired) at ic e ic' sc' r at' cl' f' where
      "i < length (goroutines w)" "pc (goroutines w ! i) = Select at"
      "interruptChannel (goroutines w ! i) = Some ic"
      "selectgo pick ic (shutdownRequestChannel w) = Fired e ic' sc'"
      "resume (closure (goroutines w ! i)) at e (InterruptFeed w) = Inr (r, at', cl', f')"
      "w' = w\<lparr>shutdownRequestChannel := sc', InterruptFeed := f', logged := logged w @ [r],
              goroutines := (goroutines w)[i := (goroutines w ! i)\<lparr>closure := cl',
                pc := Select at', interruptChannel := Some ic'\<rparr>]\<rparr>"
proof (cases "i < length (goroutines w)")
  case False
  with assms have "w' = w" by (simp add: sched_out_of_range)
  then show ?thesis by (rule idle)
next
  case True
  show ?thesis
  proof (cases "pc (goroutines w ! i)")
    case Entry
    with True assms show ?thesis by (intro entry) (simp_all add: sched_Entry)
  next
    case (Select at)
    show ?thesis
    proof (cases "interruptChannel (goroutines w ! i)")
      case None
      with True Select assms have "w' = w" by (simp add: sched_def)
      then show ?thesis by (rule idle)
    next
      case (Some ic)
      note s = sched_Select [OF True Select Some, of pick]
      show ?thesis
      proof (cases "selectgo pick ic (shutdownRequestChannel w)")
        case Blocked
        with s assms have "w' = w" by simp
        then show ?thesis by (rule idle)
      next
        case NilSignal
        with s assms show ?thesis by simp
      next
        case (Fired e ic' sc')
        with s assms have f: "fire i at e ic' sc' w = Inr w'" by simp
        then obtain r at' cl' f' where
          r: "resume (closure (goroutines w ! i)) at e (InterruptFeed w) = Inr (r, at', cl', f')"
          by (auto simp: fire_def split: sum.splits)
        with f have "w' = w\<lparr>shutdownRequestChannel := sc', InterruptFeed := f', logged := logged w @ [r],
              goroutines := (goroutines w)[i := (goroutines w ! i)\<lparr>closure := cl',
                pc := Select at', interruptChannel := Some ic'\<rparr>]\<rparr>"
          by (simp add: fire_def)
        with True Select Some Fired r show ?thesis by (intro fired)
      qed
    qed
  qed
qed

lemma signal_process_frame:
  "signal_process sig g = Inr g' \<Longrightarrow>
     pc g' = pc g \<and> closure g' = closure g \<and> notify g' = notify g"
  by (auto simp: signal_process_def split: option.splits if_splits sum.splits)

lemma OS_deliver_cases:
  assumes "OS_deliver sig w = Inr w'"
  obtains gs where "w' = w\<lparr>goroutines := gs\<rparr>" "length gs = length (goroutines w)"
    "\<And>i. i < length (goroutines w) \<Longrightarrow> signal_process sig (goroutines w ! i) = Inr (gs ! i)"
proof -
  from assms obtain gs where
    s: "sequence_sum (map (signal_process sig) (goroutines w)) = Inr gs" and w': "w' = w\<lparr>goroutines := gs\<rparr>"
    by (auto simp: OS_deliver_def split: sum.splits)
  from sequence_sum_Inr [OF s] have m: "map (signal_process sig) (goroutines w) = map Inr gs" .
  then have l: "length gs = length (goroutines w)" by (metis length_map)
  have "signal_process sig (goroutines w ! i) = Inr (gs ! i)" if "i < length (goroutines w)" for i
    using m that l by (metis nth_map)
  with w' l show ?thesis by (rule that)
qed

lemma resume_repeat:
  "resume cl repeat_select e f = Inr (repeat_msg e, repeat_select, cl, f)"
  by (cases cl) simp_all

lemma resume_kind:
  "resume cl at e f = Inr (r, at', cl', f') \<Longrightarrow>
     (cl' = StartInterrupteListener_closure) = (cl = StartInterrupteListener_closure)"
  by (cases cl) (auto split: sum.splits prod.splits)

lemma resume_record:
  "resume cl at e f = Inr (r, at', cl', f') \<Longrightarrow> at' = repeat_select \<and> (r = first_msg e \<or> r = repeat_msg e)"
  by (cases cl; cases at) (auto split: sum.splits)

text \<open>What a step does to a goroutine that exists before it.\<close>

lemma step_goroutine:
  assumes "step a w = Inr w'" and "i < length (goroutines w)"
  shows "i < length (goroutines w')"
    and "interruptSignals w' = interruptSignals w"
    and "pc (goroutines w ! i) \<noteq> Entry \<Longrightarrow>
           pc (goroutines w' ! i) \<noteq> Entry \<and> notify (goroutines w' ! i) = notify (goroutines w ! i)"
    and "pc (goroutines w ! i) = Select repeat_select \<Longrightarrow>
           pc (goroutines w' ! i) = Select repeat_select"
    and "(closure (goroutines w' ! i) = StartInterrupteListener_closure) =
           (closure (goroutines w ! i) = StartInterrupteListener_closure)"
    and "pc (goroutines w ! i) = Entry \<Longrightarrow>
           pc (goroutines w' ! i) = Entry \<or> notify (goroutines w' ! i) = interruptSignals w"
proof -
  have "i < length (goroutines w') \<and> interruptSignals w' = interruptSignals w
      \<and> (pc (goroutines w ! i) \<noteq> Entry \<longrightarrow>
           pc (goroutines w' ! i) \<noteq> Entry \<and> notify (goroutines w' ! i) = notify (goroutines w ! i))
      \<and> (pc (goroutines w ! i) = Select repeat_select \<longrightarrow>
           pc (goroutines w' ! i) = Select repeat_select)
      \<and> ((closure (goroutines w' ! i) = StartInterrupteListener_closure) =
           (closure (goroutines w ! i) = StartInterrupteListener_closure))
      \<and> (pc (goroutines w ! i) = Entry \<longrightarrow>
           pc (goroutines w' ! i) = Entry \<or> notify (goroutines w' ! i) = interruptSignals w)"
  proof (cases a)
    case Call_InterruptListener
    with assms show ?thesis by (auto simp: InterruptListener_def nth_append)
  next
    case Call_StartInterrupteListener
    with assms show ?thesis by (auto simp: StartInterrupteListener_def nth_append)
  next
    case (Call_InterruptRequested h)
    with assms show ?thesis
      by (cases "h = i")
        (auto simp: poll_def handle_chan_def split: option.splits prod.splits if_splits closure.splits)
  next
    case Call_Subscribe
    with assms show ?thesis by auto
  next
    case Request_shutdown
    with assms show ?thesis by (auto simp: request_shutdown_def split: sum.splits)
  next
    case (OS_signal sig)
    with assms have "OS_deliver sig w = Inr w'" by simp
    then show ?thesis
    proof (cases rule: OS_deliver_cases)
      case (1 gs)
      from 1(3) [OF assms(2)] signal_process_frame
      have "pc (gs ! i) = pc (goroutines w ! i) \<and> notify (gs ! i) = notify (goroutines w ! i)
          \<and> closure (gs ! i) = closure (goroutines w ! i)"
        by blast
      with 1(1,2) assms(2) show ?thesis by simp
    qed
  next
    case (Sched j pick)
    with assms have "sched j pick w = Inr w'" by simp
    then show ?thesis
    proof (cases rule: sched_cases)
      case idle
      with assms show ?thesis by simp
    next
      case entry
      with assms(2) show ?thesis by (cases "j = i") (simp_all add: subscribe_def)
    next
      case (fired at ic e ic' sc' r at' cl' f')
      show ?thesis
      proof (cases "j = i")
        case False
        with fired assms(2) show ?thesis by simp
      next
        case True
        with fired assms(2) resume_kind [OF fired(5)] show ?thesis
          by (auto simp: resume_repeat)
      qed
    qed
  qed
  then show "i < length (goroutines w')"
    and "interruptSignals w' = interruptSignals w"
    and "pc (goroutines w ! i) \<noteq> Entry \<Longrightarrow>
           pc (goroutines w' ! i) \<noteq> Entry \<and> notify (goroutines w' ! i) = notify (goroutines w ! i)"
    and "pc (goroutines w ! i) = Select repeat_select \<Longrightarrow>
           pc (goroutines w' ! i) = Select repeat_select"
    and "(closure (goroutines w' ! i) = StartInterrupteListener_closure) =
           (closure (goroutines w ! i) = StartInterrupteListener_closure)"
    and "pc (goroutines w ! i) = Entry \<Longrightarrow>
           pc (goroutines w' ! i) = Entry \<or> notify (goroutines w' ! i) = interruptSignals w"
    by simp_all
qed

lemma run_goroutine:
  assumes "run tr w = Inr w'" and "i < length (goroutines w)"
  shows "i < length (goroutines w')
      \<and> interruptSignals w' = interruptSignals w
      \<and> (pc (goroutines w ! i) \<noteq> Entry \<longrightarrow>
           pc (goroutines w' ! i) \<noteq> Entry \<and> notify (goroutines w' ! i) = notify (goroutines w ! i))
      \<and> (pc (goroutines w ! i) = Select repeat_select \<longrightarrow>
           pc (goroutines w' ! i) = Select repeat_select)
      \<and> ((closure (goroutines w' ! i) = StartInterrupteListener_closure) =
           (closure (goroutines w ! i) = StartInterrupteListener_closure))"
  using assms
proof (induction tr arbitrary: w)
  case Nil
  then show ?case by simp
next
  case (Cons a tr)
  from Cons.prems(1) obtain w1 where s: "step a w = Inr w1" and r: "run tr w1 = Inr w'"
    by (auto split: sum.splits)
  note g = step_goroutine [OF s Cons.prems(2)]
  from Cons.IH [OF r g(1)] g(2-5) show ?case by auto
qed

lemma step_interruptSignals: "step a w = Inr w' \<Longrightarrow> interruptSignals w' = interruptSignals w"
proof (cases a)
  case (OS_signal sig)
  assume "step a w = Inr w'"
  with OS_signal have "OS_deliver sig w = Inr w'" by simp
  then show ?thesis by (cases rule: OS_deliver_cases) simp
next
  case (Sched j pick)
  assume "step a w = Inr w'"
  with Sched have "sched j pick w = Inr w'" by simp
  then show ?thesis by (cases rule: sched_cases) simp_all
qed (auto simp: InterruptListener_def StartInterrupteListener_def poll_def request_shutdown_def
      split: option.splits prod.splits sum.splits)

lemma run_interruptSignals: "run tr w = Inr w' \<Longrightarrow> interruptSignals w' = interruptSignals w"
proof (induction tr arbitrary: w)
  case Nil
  then show ?case by simp
next
  case (Cons a tr)
  from Cons.prems obtain w1 where s: "step a w = Inr w1" and r: "run tr w1 = Inr w'"
    by (auto split: sum.splits)
  from Cons.IH [OF r] step_interruptSignals [OF s] show ?case by simp
qed

text \<open>Every listener past its entry is subscribed to the set \<open>S\<close>.\<close>

lemma step_new_goroutine:
  assumes "step a w = Inr w'" and "i < length (goroutines w')" and "\<not> i < length (goroutines w)"
  shows "pc (goroutines w' ! i) = Entry"
proof (cases a)
  case (OS_signal sig)
  with assms(1) have "OS_deliver sig w = Inr w'" by simp
  then show ?thesis using assms(2,3) by (cases rule: OS_deliver_cases) simp
next
  case (Sched j pick)
  with assms(1) have "sched j pick w = Inr w'" by simp
  then show ?thesis using assms(2,3) by (cases rule: sched_cases) simp_all
qed (use assms in \<open>auto simp: InterruptListener_def StartInterrupteListener_def go_def
      poll_def request_shutdown_def nth_append
      split: option.splits prod.splits sum.splits\<close>)

lemma step_subscribed:
  assumes "step a w = Inr w'" and "interruptSignals w = S"
    and "list_all (\<lambda>g. pc g = Entry \<or> notify g = S) (goroutines w)"
  shows "list_all (\<lambda>g. pc g = Entry \<or> notify g = S) (goroutines w')"
proof -
  have "pc (goroutines w' ! i) = Entry \<or> notify (goroutines w' ! i) = S"
    if i: "i < length (goroutines w')" for i
  proof (cases "i < length (goroutines w)")
    case True
    from assms(3) True have old: "pc (goroutines w ! i) = Entry \<or> notify (goroutines w ! i) = S"
      by (simp add: list_all_length)
    show ?thesis
    proof (cases "pc (goroutines w ! i) = Entry")
      case False
      with step_goroutine(3) [OF assms(1) True] old show ?thesis by simp
    next
      case True
      with step_goroutine(6) [OF assms(1) \<open>i < length (goroutines w)\<close>] assms(2)
      show ?thesis by simp
    qed
  next
    case False
    with step_new_goroutine [OF assms(1) i] show ?thesis by simp
  qed
  then show ?thesis by (simp add: list_all_length)
qed

lemma run_subscribed:
  assumes "run tr w = Inr w'" and "interruptSignals w = S"
    and "list_all (\<lambda>g. pc g = Entry \<or> notify g = S) (goroutines w)"
  shows "list_all (\<lambda>g. pc g = Entry \<or> notify g = S) (goroutines w')"
  using assms
proof (induction tr arbitrary: w)
  case Nil
  then show ?case by simp
next
  case (Cons a tr)
  from Cons.prems(1) obtain w1 where s: "step a w = Inr w1" and r: "run tr w1 = Inr w'"
    by (auto split: sum.splits)
  from step_interruptSignals [OF s] Cons.prems(2) have "interruptSignals w1 = S" by simp
  from Cons.IH [OF r this step_subscribed [OF s Cons.prems(2,3)]] show ?case .
qed

section \<open>Receiving at a select\<close>

lemma selectgo_Fired:
  assumes "ic_ok ic" "sc_ok sc" "selectgo pick ic sc = Fired e ic' sc'"
  shows "(\<exists>s. e = Signal s \<and> buf ic = [s] \<and> ic' = ic\<lparr>buf := []\<rparr> \<and> sc' = sc)
       \<or> (e = ShutdownRequest \<and> ic' = ic \<and> (\<exists>x xs. sendq sc = x # xs \<and> sc' = sc\<lparr>sendq := xs\<rparr>))"
proof -
  from assms(1) have ic: "chanrecv ic = (case buf ic of [] \<Rightarrow> None | s # _ \<Rightarrow> Some (Some s, ic\<lparr>buf := []\<rparr>))"
    by (cases "buf ic") (auto simp: chanrecv_def ic_ok_def)
  from assms(2) have sc: "chanrecv sc = (case sendq sc of [] \<Rightarrow> None | x # xs \<Rightarrow> Some (Some x, sc\<lparr>sendq := xs\<rparr>))"
    by (cases "sendq sc") (auto simp: chanrecv_def sc_ok_def)
  from assms(1) have len: "length (buf ic) \<le> 1" by (simp add: ic_ok_def)
  show ?thesis
  proof (cases "buf ic")
    case Nil
    with assms(3) ic sc show ?thesis
      by (cases "sendq sc") (auto simp: selectgo_def)
  next
    case (Cons s ss)
    with len have "ss = []" by simp
    with Cons assms(3) ic sc show ?thesis
      by (cases "sendq sc") (auto simp: selectgo_def split: if_splits)
  qed
qed

lemma selectgo_shutdown:
  assumes "ic_ok ic" "buf ic = []" "sc_ok sc" "sendq sc = x # xs"
  shows "selectgo pick ic sc = Fired ShutdownRequest ic (sc\<lparr>sendq := xs\<rparr>)"
  using assms by (simp add: selectgo_def chanrecv_def ic_ok_def sc_ok_def)

lemma selectgo_blocked:
  assumes "ic_ok ic" "sc_ok sc"
  shows "(selectgo pick ic sc = Blocked) = (buf ic = [] \<and> sendq sc = [])"
  using assms
  by (cases "buf ic"; cases "sendq sc") (auto simp: selectgo_def chanrecv_def ic_ok_def sc_ok_def)

lemma selectgo_signal:
  assumes "ic_ok ic" "buf ic = [s]"
  shows "selectgo True ic sc = Fired (Signal s) (ic\<lparr>buf := []\<rparr>) sc"
  using assms
  by (auto simp: selectgo_def chanrecv_def ic_ok_def split: list.splits option.splits prod.splits)

lemma signal_record_not_shutdown:
  "\<not> is_shutdown_record (first_msg (Signal s))" "\<not> is_shutdown_record (repeat_msg (Signal s))"
  by (simp_all add: is_shutdown_record_def)

lemma shutdown_record:
  "is_shutdown_record (first_msg ShutdownRequest)" "is_shutdown_record (repeat_msg ShutdownRequest)"
  by (simp_all add: is_shutdown_record_def)

lemma parked_wf:
  assumes "wf w" "parked i w"
  obtains at ic where "i < length (goroutines w)" "pc (goroutines w ! i) = Select at"
    "interruptChannel (goroutines w ! i) = Some ic" "ic_ok ic" "buf ic = []"
    "sendq (shutdownRequestChannel w) = []"
proof -
  from assms(2) have i: "i < length (goroutines w)" by (simp add: parked_def)
  from assms(2) obtain at where at: "pc (goroutines w ! i) = Select at"
    by (cases "pc (goroutines w ! i)") (auto simp: parked_def)
  from wf_nth [OF assms(1) i] at obtain ic where
    ic: "interruptChannel (goroutines w ! i) = Some ic" "ic_ok ic"
    by (auto simp: g_ok_def split: option.splits)
  from assms(1) have sc: "sc_ok (shutdownRequestChannel w)" by (simp add: wf_def)
  from assms(2) at ic(1) have "selectgo True ic (shutdownRequestChannel w) = Blocked"
    by (simp add: parked_def)
  with selectgo_blocked [OF ic(2) sc] have "buf ic = []" "sendq (shutdownRequestChannel w) = []"
    by simp_all
  with i at ic show ?thesis by (rule that)
qed

text \<open>A listener at a select with an empty signal buffer takes the oldest pending raise.\<close>

lemma sched_takes_raise:
  assumes "wf w" "i < length (goroutines w)" "pc (goroutines w ! i) = Select at"
    "interruptChannel (goroutines w ! i) = Some ic" "buf ic = []"
    "sendq (shutdownRequestChannel w) = x # xs"
  shows "\<exists>r cl' f'. resume (closure (goroutines w ! i)) at ShutdownRequest (InterruptFeed w) =
              Inr (r, repeat_select, cl', f')
           \<and> is_shutdown_record r
           \<and> sched i pick w =
               Inr (w\<lparr>shutdownRequestChannel := (shutdownRequestChannel w)\<lparr>sendq := xs\<rparr>,
                       InterruptFeed := f', logged := logged w @ [r],
                       goroutines := (goroutines w)[i := (goroutines w ! i)\<lparr>closure := cl',
                         pc := Select repeat_select, interruptChannel := Some ic\<rparr>]\<rparr>)"
proof -
  let ?g = "goroutines w ! i"
  have g: "g_ok ?g" using assms(1,2) by (rule wf_nth)
  with assms(3,4) have ic: "ic_ok ic" and h: "handle_ok (closure ?g) (Select at)"
    by (simp_all add: g_ok_def)
  from assms(1) have sc: "sc_ok (shutdownRequestChannel w)" by (simp add: wf_def)
  from resume_ok [OF h, of ShutdownRequest "InterruptFeed w"] obtain r at' cl' f' where
    r: "resume (closure ?g) at ShutdownRequest (InterruptFeed w) = Inr (r, at', cl', f')"
    by blast
  from resume_record [OF r] have at': "at' = repeat_select" and rr: "is_shutdown_record r"
    by (auto simp: is_shutdown_record_def)
  from selectgo_shutdown [OF ic assms(5) sc assms(6), of pick] r at' rr show ?thesis
    by (simp add: sched_Select [OF assms(2,3,4)] fire_def)
qed

lemma sched_parked:
  assumes "wf w" "parked i w"
  shows "sched i pick w = Inr w"
proof -
  from assms obtain at ic where p: "i < length (goroutines w)" "pc (goroutines w ! i) = Select at"
    "interruptChannel (goroutines w ! i) = Some ic" "ic_ok ic" "buf ic = []"
    "sendq (shutdownRequestChannel w) = []"
    by (rule parked_wf)
  from assms(1) have sc: "sc_ok (shutdownRequestChannel w)" by (simp add: wf_def)
  from selectgo_blocked [OF p(4) sc, of pick] p(5,6) show ?thesis
    by (simp add: sched_Select [OF p(1,2,3)])
qed

lemma sched_takes_signal:
  assumes "wf w" "i < length (goroutines w)"
    "interruptChannel (goroutines w ! i) = Some ic" "buf ic = [s]"
  shows "\<exists>w' r. sched i True w = Inr w' \<and> logged w' = logged w @ [r]
          \<and> (r = first_msg (Signal s) \<or> r = repeat_msg (Signal s))
          \<and> interruptChannel (goroutines w' ! i) = Some (ic\<lparr>buf := []\<rparr>)"
proof -
  let ?g = "goroutines w ! i"
  have g: "g_ok ?g" using assms(1,2) by (rule wf_nth)
  with assms(3) have ic: "ic_ok ic" and "pc ?g \<noteq> Entry" by (simp_all add: g_ok_def)
  then obtain at where at: "pc ?g = Select at" by (cases "pc ?g") auto
  with g have h: "handle_ok (closure ?g) (Select at)" by (simp add: g_ok_def)
  from resume_ok [OF h, of "Signal s" "InterruptFeed w"] obtain r at' cl' f' where
    r: "resume (closure ?g) at (Signal s) (InterruptFeed w) = Inr (r, at', cl', f')"
    by blast
  from resume_record [OF r] selectgo_signal [OF ic assms(4), of "shutdownRequestChannel w"] r
    assms(2)
  show ?thesis by (simp add: sched_Select [OF assms(2) at assms(3)] fire_def)
qed

text \<open>Raises are neither lost nor duplicated: each is pending or was received once.\<close>

lemma step_raises:
  assumes "wf w" "step a w = Inr w'"
  shows "shutdown_records w' + pending w' =
           shutdown_records w + pending w + (if a = Request_shutdown then 1 else 0)"
proof (cases a)
  case Call_InterruptListener
  with assms(2) show ?thesis
    by (auto simp: InterruptListener_def shutdown_records_def pending_def)
next
  case Call_StartInterrupteListener
  with assms(2) show ?thesis
    by (auto simp: StartInterrupteListener_def shutdown_records_def pending_def)
next
  case (Call_InterruptRequested h)
  with assms show ?thesis by (simp add: poll_wf)
next
  case Call_Subscribe
  with assms(2) show ?thesis by (auto simp: shutdown_records_def pending_def)
next
  case Request_shutdown
  with assms show ?thesis
    by (auto simp: request_shutdown_def chansend_def wf_def sc_ok_def shutdown_records_def
        pending_def split: if_splits)
next
  case (OS_signal sig)
  with assms(2) have "OS_deliver sig w = Inr w'" by simp
  then show ?thesis using OS_signal
    by (cases rule: OS_deliver_cases) (simp add: shutdown_records_def pending_def)
next
  case (Sched i pick)
  with assms(2) have "sched i pick w = Inr w'" by simp
  then show ?thesis
  proof (cases rule: sched_cases)
    case idle
    with Sched show ?thesis by simp
  next
    case entry
    with Sched show ?thesis by (simp add: shutdown_records_def pending_def)
  next
    case (fired at ic e ic' sc' r at' cl' f')
    from wf_nth [OF assms(1) fired(1)] fired(2,3) have ic: "ic_ok ic" by (simp add: g_ok_def)
    from assms(1) have sc: "sc_ok (shutdownRequestChannel w)" by (simp add: wf_def)
    from resume_record [OF fired(5)] have r: "r = first_msg e \<or> r = repeat_msg e" by simp
    from selectgo_Fired [OF ic sc fired(4)] show ?thesis
    proof
      assume "\<exists>s. e = Signal s \<and> buf ic = [s] \<and> ic' = ic\<lparr>buf := []\<rparr> \<and> sc' = shutdownRequestChannel w"
      then obtain s where "e = Signal s" "sc' = shutdownRequestChannel w" by blast
      with r signal_record_not_shutdown [of s] fired(6) Sched show ?thesis
        by (auto simp: shutdown_records_def pending_def)
    next
      assume "e = ShutdownRequest \<and> ic' = ic \<and>
        (\<exists>x xs. sendq (shutdownRequestChannel w) = x # xs \<and> sc' = shutdownRequestChannel w\<lparr>sendq := xs\<rparr>)"
      then obtain x xs where "e = ShutdownRequest" "sendq (shutdownRequestChannel w) = x # xs"
        "sc' = shutdownRequestChannel w\<lparr>sendq := xs\<rparr>" by blast
      with r shutdown_record fired(6) Sched show ?thesis
        by (auto simp: shutdown_records_def pending_def)
    qed
  qed
qed

lemma run_raises:
  assumes "wf w" "run tr w = Inr w'"
  shows "shutdown_records w' + pending w' =
           shutdown_records w + pending w + count_list tr Request_shutdown"
  using assms
proof (induction tr arbitrary: w)
  case Nil
  then show ?case by simp
next
  case (Cons a tr)
  from Cons.prems(2) obtain w1 where s: "step a w = Inr w1" and r: "run tr w1 = Inr w'"
    by (auto split: sum.splits)
  from wf_step [OF Cons.prems(1), of a] s have wf1: "wf w1" by simp
  from Cons.IH [OF wf1 r] step_raises [OF Cons.prems(1) s] show ?case by simp
qed

section \<open>Signal delivery\<close>

text \<open>A signal goes to every subscribed listener whose buffer has room.\<close>

lemma signal_process_room:
  assumes "interruptChannel g = Some ic" "ic_ok ic" "buf ic = []" "sig \<in> set (notify g)"
  shows "signal_process sig g = Inr (g\<lparr>interruptChannel := Some (ic\<lparr>buf := [sig]\<rparr>)\<rparr>)"
  using assms by (simp add: signal_process_def selectnbsend_def ic_ok_def)

lemma signal_process_full:
  assumes "interruptChannel g = Some ic" "ic_ok ic" "buf ic = [s]"
  shows "signal_process sig g = Inr g"
  using assms by (simp add: signal_process_def selectnbsend_def ic_ok_def)

lemma OS_deliver_fanout:
  assumes "wf w"
  shows "\<exists>w'. OS_deliver sig w = Inr w' \<and> length (goroutines w') = length (goroutines w)
          \<and> (\<forall>i<length (goroutines w). \<forall>ic.
                interruptChannel (goroutines w ! i) = Some ic \<and> buf ic = []
                \<and> sig \<in> set (notify (goroutines w ! i)) \<longrightarrow>
                interruptChannel (goroutines w' ! i) = Some (ic\<lparr>buf := [sig]\<rparr>))"
proof -
  from wf_OS_deliver [OF assms, of sig] obtain w' where d: "OS_deliver sig w = Inr w'" by blast
  then show ?thesis
  proof (cases rule: OS_deliver_cases)
    case (1 gs)
    have "interruptChannel (gs ! i) = Some (ic\<lparr>buf := [sig]\<rparr>)"
      if "i < length (goroutines w)" "interruptChannel (goroutines w ! i) = Some ic"
        "buf ic = []" "sig \<in> set (notify (goroutines w ! i))" for i ic
    proof -
      from wf_nth [OF assms that(1)] that(2) have "ic_ok ic" by (simp add: g_ok_def)
      from signal_process_room [OF that(2) this that(3,4)] 1(3) [OF that(1)] show ?thesis
        by simp
    qed
    with d 1(1,2) show ?thesis by simp
  qed
qed

lemma OS_deliver_full:
  assumes "wf w" "i < length (goroutines w)"
    "interruptChannel (goroutines w ! i) = Some ic" "buf ic = [s]"
  shows "\<exists>w'. OS_deliver sig w = Inr w' \<and> wf w' \<and> length (goroutines w') = length (goroutines w)
          \<and> goroutines w' ! i = goroutines w ! i \<and> logged w' = logged w"
proof -
  from wf_OS_deliver [OF assms(1), of sig] obtain w' where
    d: "OS_deliver sig w = Inr w'" and wf': "wf w'" by blast
  from d show ?thesis
  proof (cases rule: OS_deliver_cases)
    case (1 gs)
    from wf_nth [OF assms(1,2)] assms(3) have "ic_ok ic" by (simp add: g_ok_def)
    from signal_process_full [OF assms(3) this assms(4), of sig] 1(3) [OF assms(2)]
    have "gs ! i = goroutines w ! i" by simp
    with d wf' 1(1,2) show ?thesis by simp
  qed
qed

lemma run_signals_full:
  assumes "wf w" "i < length (goroutines w)"
    "interruptChannel (goroutines w ! i) = Some ic" "buf ic = [s]"
  shows "\<exists>w'. run (map OS_signal sigs) w = Inr w' \<and> wf w' \<and> i < length (goroutines w')
          \<and> goroutines w' ! i = goroutines w ! i \<and> logged w' = logged w"
  using assms
proof (induction sigs arbitrary: w)
  case Nil
  then show ?case by simp
next
  case (Cons sig sigs)
  from OS_deliver_full [OF Cons.prems, of sig] obtain w1 where
    w1: "OS_deliver sig w = Inr w1" "wf w1" "length (goroutines w1) = length (goroutines w)"
      "goroutines w1 ! i = goroutines w ! i" "logged w1 = logged w"
    by blast
  from Cons.IH [of w1] w1 Cons.prems show ?case by simp
qed

section \<open>The sends on the feed\<close>

lemma length_filter_update:
  "i < length xs \<Longrightarrow>
     length (filter P (xs[i := x])) + (if P (xs ! i) then 1 else 0) =
     length (filter P xs) + (if P x then 1 else 0)"
proof (induction xs arbitrary: i)
  case Nil
  then show ?case by simp
next
  case (Cons y ys)
  show ?case
  proof (cases i)
    case 0
    then show ?thesis by simp
  next
    case (Suc k)
    with Cons.prems have "k < length ys" by simp
    from Cons.IH [OF this] Suc show ?thesis by simp
  qed
qed

lemma length_filter_cong:
  assumes "length xs = length ys" and "\<And>i. i < length xs \<Longrightarrow> P (xs ! i) = P (ys ! i)"
  shows "length (filter P xs) = length (filter P ys)"
  using assms
proof (induction xs ys rule: list_induct2)
  case Nil
  then show ?case by simp
next
  case (Cons x xs y ys)
  from Cons.prems [of 0] have h: "P x = P y" by simp
  have "length (filter P xs) = length (filter P ys)"
    by (rule Cons.IH) (use Cons.prems [of "Suc i" for i] in simp)
  with h show ?case by simp
qed

lemma resume_feed:
  assumes "resume cl at e f = Inr (r, at', cl', f')"
  shows "(if cl = StartInterrupteListener_closure \<and> at = first_select
          then f' = Feed_Send f else f' = f)"
  using assms by (cases cl; cases at) (auto split: sum.splits)

lemma feed_ok_boot: "feed_ok boot"
  by (simp add: feed_ok_def boot_def Feed_zero_def)

lemma step_feed_ok:
  assumes "wf w" "feed_ok w" "step a w = Inr w'"
  shows "feed_ok w'"
proof (cases a)
  case Call_InterruptListener
  with assms(2,3) show ?thesis
    by (auto simp: feed_ok_def InterruptListener_def go_def fired_feed_listener_def)
next
  case Call_StartInterrupteListener
  with assms(2,3) show ?thesis
    by (auto simp: feed_ok_def StartInterrupteListener_def go_def fired_feed_listener_def)
next
  case (Call_InterruptRequested h)
  with assms show ?thesis by (simp add: poll_wf)
next
  case Call_Subscribe
  with assms(2,3) show ?thesis by (auto simp: feed_ok_def Feed_Subscribe_def)
next
  case Request_shutdown
  with assms(2,3) show ?thesis
    by (auto simp: feed_ok_def request_shutdown_def split: sum.splits)
next
  case (OS_signal sig)
  with assms(3) have "OS_deliver sig w = Inr w'" by simp
  then show ?thesis
  proof (cases rule: OS_deliver_cases)
    case (1 gs)
    have "fired_feed_listener (gs ! i) = fired_feed_listener (goroutines w ! i)"
      if "i < length gs" for i
      using signal_process_frame [OF 1(3) [of i]] that 1(2)
      by (simp add: fired_feed_listener_def)
    with 1(2) have "length (filter fired_feed_listener gs) =
        length (filter fired_feed_listener (goroutines w))"
      by (intro length_filter_cong) simp_all
    with assms(2) 1(1) show ?thesis by (auto simp: feed_ok_def)
  qed
next
  case (Sched i pick)
  with assms(3) have "sched i pick w = Inr w'" by simp
  then show ?thesis
  proof (cases rule: sched_cases)
    case idle
    with assms(2) show ?thesis by simp
  next
    case entry
    from length_filter_update [OF entry(1), of fired_feed_listener
        "subscribe (interruptSignals w) (goroutines w ! i)"] entry(2)
    have "length (filter fired_feed_listener
             ((goroutines w)[i := subscribe (interruptSignals w) (goroutines w ! i)])) =
          length (filter fired_feed_listener (goroutines w))"
      by (simp add: fired_feed_listener_def subscribe_def)
    with assms(2) entry(3) show ?thesis by (auto simp: feed_ok_def)
  next
    case (fired at ic e ic' sc' r at' cl' f')
    let ?g = "goroutines w ! i"
    let ?g' = "?g\<lparr>closure := cl', pc := Select at', interruptChannel := Some ic'\<rparr>"
    note u = length_filter_update [OF fired(1), of fired_feed_listener ?g']
    from resume_record [OF fired(5)] have at': "at' = repeat_select" by simp
    note k = resume_kind [OF fired(5)]
    note f = resume_feed [OF fired(5)]
    show ?thesis
    proof (cases "closure ?g = StartInterrupteListener_closure \<and> at = first_select")
      case True
      with f have f': "f' = Feed_Send (InterruptFeed w)" by simp
      from True fired(2) k at' u
      have "length (filter fired_feed_listener ((goroutines w)[i := ?g'])) =
          Suc (length (filter fired_feed_listener (goroutines w)))"
        by (simp add: fired_feed_listener_def)
      with assms(2) fired(6) f' show ?thesis
        by (auto simp: feed_ok_def Feed_Send_def list_all_iff)
    next
      case False
      with f have f': "f' = InterruptFeed w" by simp
      from False fired(2) k at' u
      have "length (filter fired_feed_listener ((goroutines w)[i := ?g'])) =
          length (filter fired_feed_listener (goroutines w))"
        by (cases at) (auto simp: fired_feed_listener_def)
      with assms(2) fired(6) f' show ?thesis by (auto simp: feed_ok_def)
    qed
  qed
qed

lemma run_feed_ok:
  assumes "wf w" "feed_ok w" "run tr w = Inr w'"
  shows "feed_ok w'"
  using assms
proof (induction tr arbitrary: w)
  case Nil
  then show ?case by simp
next
  case (Cons a tr)
  from Cons.prems(3) obtain w1 where s: "step a w = Inr w1" and r: "run tr w1 = Inr w'"
    by (auto split: sum.splits)
  from wf_step [OF Cons.prems(1), of a] s have "wf w1" by simp
  from Cons.IH [OF this step_feed_ok [OF Cons.prems(1,2) s] r] show ?case .
qed

section \<open>Evaluating a run\<close>

lemmas run_eval =
  InterruptListener_def StartInterrupteListener_def go_def sched_def subscribe_def fire_def
  selectgo_def chanrecv_def chansend_def selectnbsend_def closechan_def makechan_def
  request_shutdown_def OS_deliver_def signal_process_def poll_def handle_chan_def
  InterruptRequested_def boot_def Feed_zero_def Feed_Send_def Feed_Subscribe_def
  pending_def parked_def shutdown_records_def is_shutdown_record_def

section \<open>The claims\<close>

lemma map_upt_Suc_split: "map f [0..<Suc n] = f 0 # map (\<lambda>k. f (Suc k)) [0..<n]"
  by (simp only: upt_conv_Cons [OF zero_less_Suc] list.map map_Suc_upt [symmetric] map_map comp_def)

text \<open>
  Claim C1. Whatever sequence of events (OS signals or shutdown requests) a listener
  started by \<^verbatim>\<open>InterruptListener\<close> observes, the channel it returned is open before
  the first event and closed after the first event and after every later one: along
  the prefixes of the sequence the handle goes from open to closed exactly once, at
  the first event. No close is attempted twice (the run never panics), and a receive
  on the closed handle succeeds and leaves the channel as it is, so every current and
  future waiter gets through.
\<close>

theorem C1_handle_closes_once_on_first_event:
  "map (\<lambda>n. handle_closed (InterruptListener_observe (take n es) InterruptListener_start))
       [0..<Suc (length es)]
     = Inr False # replicate (length es) (Inr True)
   \<and> (case InterruptListener_observe (e # es) InterruptListener_start of
        Inl p \<Rightarrow> False
      | Inr (at, c, lg) \<Rightarrow>
          at = repeat_select \<and> closed c \<and> chanrecv c = Some (None, c)
          \<and> lg = first_msg e # map repeat_msg es)"
proof
  have open0:
    "handle_closed (InterruptListener_observe (take 0 es) InterruptListener_start) = Inr False"
    by (simp add: InterruptListener_start_def makechan_def)
  have closedS:
    "handle_closed (InterruptListener_observe (take (Suc k) es) InterruptListener_start) = Inr True"
    if "k < length es" for k
  proof -
    from that obtain x xs where "es = x # xs" by (cases es) auto
    then show ?thesis by (simp add: InterruptListener_observe_first)
  qed
  have "map (\<lambda>k. handle_closed
                (InterruptListener_observe (take (Suc k) es) InterruptListener_start))
          [0..<length es]
        = map (\<lambda>k. Inr True) [0..<length es]"
    by (rule map_cong) (simp_all add: closedS)
  also have "\<dots> = replicate (length es) (Inr True)"
    by (simp add: map_replicate_const)
  finally show
    "map (\<lambda>n. handle_closed (InterruptListener_observe (take n es) InterruptListener_start))
       [0..<Suc (length es)]
     = Inr False # replicate (length es) (Inr True)"
    using open0 by (simp only: map_upt_Suc_split)
next
  show "case InterruptListener_observe (e # es) InterruptListener_start of
        Inl p \<Rightarrow> False
      | Inr (at, c, lg) \<Rightarrow>
          at = repeat_select \<and> closed c \<and> chanrecv c = Some (None, c)
          \<and> lg = first_msg e # map repeat_msg es"
    by (simp add: InterruptListener_observe_first chanrecv_def makechan_def)
qed

text \<open>
  Claim C2. On the handle of a listener that has observed the events \<open>es\<close>,
  \<^verbatim>\<open>InterruptRequested\<close> answers at once, and answers true exactly when the handle
  is closed, which is exactly when \<open>es\<close> is not empty: false before any event, true
  after the first event however many follow. The call leaves the channel as it was.
\<close>

theorem C2_InterruptRequested_iff_fired:
  "(case InterruptListener_observe es InterruptListener_start of
      Inl p \<Rightarrow> False
    | Inr (at, c, lg) \<Rightarrow>
        InterruptRequested c = (closed c, c) \<and> closed c = (es \<noteq> []))"
proof (cases es)
  case Nil
  then show ?thesis
    by (simp add: InterruptListener_start_def InterruptRequested_def chanrecv_def makechan_def)
next
  case (Cons e es')
  then show ?thesis
    by (simp add: InterruptListener_observe_first InterruptRequested_def chanrecv_def makechan_def)
qed

text \<open>
  Claim C3, as amended. Each listener started by \<^verbatim>\<open>StartInterrupteListener\<close>
  publishes on \<^verbatim>\<open>InterruptFeed\<close> exactly once, at the first event it receives:
  whatever the feed \<open>f\<close> held before, as long as the listener has received no event
  it sends nothing, and once it has received its first event \<open>e\<close>, whatever follows,
  it has made one \<^verbatim>\<open>Send\<close>, which gave one delivery to each subscriber registered
  before that event and none to a subscriber registered after it. The feed is one
  package-level value shared by all these listeners, and nothing keeps
  \<^verbatim>\<open>StartInterrupteListener\<close> from being called again: in every state the process
  can reach, the sends on the feed are as many as the feed-based listeners that have
  fired, and no subscriber holds more deliveries than that.
\<close>

theorem C3_each_listener_publishes_once:
  assumes "run tr boot = Inr w"
  shows "nsent (InterruptFeed w) = length (filter fired_feed_listener (goroutines w))
     \<and> list_all (\<lambda>d. d \<le> nsent (InterruptFeed w)) (inbox (InterruptFeed w))
     \<and> StartInterrupteListener_observe (replicate m Subscribed) (first_select, f, lg) =
         (first_select, f\<lparr>inbox := inbox f @ replicate m 0\<rparr>, lg)
     \<and> StartInterrupteListener_observe (replicate m Subscribed @ Received e # ops)
           (first_select, f, lg) =
         (repeat_select,
          \<lparr>inbox = map Suc (inbox f) @ replicate m 1 @ replicate (count_list ops Subscribed) 0,
           nsent = Suc (nsent f)\<rparr>,
          lg @ first_msg e # map repeat_msg (events_of ops))"
proof -
  from run_feed_ok [OF wf_boot feed_ok_boot assms]
  have a: "nsent (InterruptFeed w) = length (filter fired_feed_listener (goroutines w))"
    and b: "list_all (\<lambda>d. d \<le> nsent (InterruptFeed w)) (inbox (InterruptFeed w))"
    unfolding feed_ok_def by blast+
  show ?thesis
    by (intro conjI a b StartInterrupteListener_observe_Subscribed
        StartInterrupteListener_observe_first)
qed

text \<open>
  Claim C3 as stated fails: with \<^verbatim>\<open>StartInterrupteListener\<close> called twice, one
  interrupt signal makes both listeners publish on the one feed, which so sees two
  sends in one process, and the subscriber registered before them holds two
  deliveries, not one.
\<close>

theorem C3_two_listeners_publish_twice:
  "map_sum id (nsent \<circ> InterruptFeed)
     (run [Call_StartInterrupteListener, Call_StartInterrupteListener, Call_Subscribe,
           Sched 0 True, Sched 1 True, OS_signal os_Interrupt, Sched 0 True, Sched 1 True] boot)
     = Inr 2
   \<and> map_sum id (inbox \<circ> InterruptFeed)
     (run [Call_StartInterrupteListener, Call_StartInterrupteListener, Call_Subscribe,
           Sched 0 True, Sched 1 True, OS_signal os_Interrupt, Sched 0 True, Sched 1 True] boot)
     = Inr [2]"
  by (simp add: run_eval)

text \<open>
  An instance of the amended claim: two listeners, of which one has fired; one
  subscriber before its send and one after.
\<close>

theorem C3_witness:
  "\<exists>w. run [Call_StartInterrupteListener, Call_StartInterrupteListener, Call_Subscribe,
             Sched 0 True, Sched 1 True, OS_signal os_Interrupt, Sched 0 True, Call_Subscribe]
          boot = Inr w
     \<and> map fired_feed_listener (goroutines w) = [True, False]
     \<and> nsent (InterruptFeed w) = 1
     \<and> inbox (InterruptFeed w) = [1, 0]"
proof -
  obtain w where w: "run [Call_StartInterrupteListener, Call_StartInterrupteListener,
      Call_Subscribe, Sched 0 True, Sched 1 True, OS_signal os_Interrupt, Sched 0 True,
      Call_Subscribe] boot = Inr w"
    and g: "map fired_feed_listener (goroutines w) = [True, False]"
      "inbox (InterruptFeed w) = [1, 0]"
    by (simp add: run_eval fired_feed_listener_def)
  from g(1) have "filter fired_feed_listener (goroutines w) = [goroutines w ! 0]"
    by (cases "goroutines w"; cases "tl (goroutines w)") auto
  with C3_each_listener_publishes_once [OF w] have "nsent (InterruptFeed w) = 1" by simp
  with w g show ?thesis by (intro exI [of _ w] conjI)
qed

text \<open>
  Claim C4. A listener of either kind that has fired (it is parked at the select
  inside its loop) does nothing with the events it receives from then on but log one
  "repeated" record for each: it stays at that select, the channel-based listener
  leaves its channel \<open>c\<close> as it is (never closed again), and the feed-based listener
  sends nothing more on the feed (\<open>nsent\<close> and the deliveries of the subscribers
  stay; the feed only grows by the subscribers that register meanwhile, with no
  delivery). Run on an endless stream of events, neither goroutine body ever returns.
\<close>

theorem C4_repeats_are_only_logged:
  "InterruptListener_observe es (repeat_select, c, lg) =
     Inr (repeat_select, c, lg @ map repeat_msg es)
   \<and> StartInterrupteListener_observe ops (repeat_select, f, lg) =
       (repeat_select, f\<lparr>inbox := inbox f @ replicate (count_list ops Subscribed) 0\<rparr>,
        lg @ map repeat_msg (events_of ops))
   \<and> InterruptListener_goroutine evs = None
   \<and> StartInterrupteListener_goroutine evs f = None"
  by (simp add: InterruptListener_observe_repeat StartInterrupteListener_observe_fired
      InterruptListener_goroutine_def StartInterrupteListener_goroutine_def
      InterruptListener_loop_None StartInterrupteListener_loop_None
      closechan_def makechan_def)

text \<open>
  Claim C6, as amended. In every state the process can reach, every listener past its
  subscription is subscribed to the same signal set, that of \<^verbatim>\<open>interruptSignals\<close>,
  and all listeners receive from the one \<^verbatim>\<open>shutdownRequestChannel\<close>. OS signals
  fan out: a signal of the set is put into the signal channel of every subscribed
  listener whose buffer is empty. Shutdown requests do not fan out: the records of
  received shutdown requests, over all listeners together, and the requests still
  pending add up to the number of requests raised, so each request is received by one
  listener only.
\<close>

theorem C6_signals_fan_out_requests_do_not:
  assumes "run tr boot = Inr w"
  shows "list_all (\<lambda>g. pc g = Entry \<or> notify g = interruptSignals boot) (goroutines w)
     \<and> (\<exists>w'. OS_deliver sig w = Inr w' \<and> length (goroutines w') = length (goroutines w)
          \<and> (\<forall>i<length (goroutines w). \<forall>ic.
                interruptChannel (goroutines w ! i) = Some ic \<and> buf ic = []
                \<and> sig \<in> set (notify (goroutines w ! i)) \<longrightarrow>
                interruptChannel (goroutines w' ! i) = Some (ic\<lparr>buf := [sig]\<rparr>)))
     \<and> shutdown_records w + pending w = count_list tr Request_shutdown"
proof -
  from wf_run [OF wf_boot, of tr] assms have wf: "wf w" by simp
  have "list_all (\<lambda>g. pc g = Entry \<or> notify g = interruptSignals boot) (goroutines w)"
    by (rule run_subscribed [OF assms refl]) (simp add: boot_def)
  moreover have "shutdown_records w + pending w = count_list tr Request_shutdown"
    using run_raises [OF wf_boot assms]
    by (simp add: shutdown_records_def pending_def boot_def makechan_def)
  ultimately show ?thesis using OS_deliver_fanout [OF wf, of sig] by simp
qed

text \<open>
  Claim C6 as stated fails: with both listeners parked at their first select, one
  shutdown request fires only the listener that is scheduled first. Scheduled first,
  the channel-based listener fires and the feed-based one stays at its first select
  and publishes nothing; scheduled second, it stays at its first select and its
  handle stays open.
\<close>

theorem C6_one_request_fires_one_listener:
  "map_sum id (map pc \<circ> goroutines)
     (run [Call_InterruptListener, Call_StartInterrupteListener, Sched 0 True, Sched 1 True,
           Request_shutdown, Sched 0 True, Sched 1 True] boot)
     = Inr [Select repeat_select, Select first_select]
   \<and> map_sum id (nsent \<circ> InterruptFeed)
     (run [Call_InterruptListener, Call_StartInterrupteListener, Sched 0 True, Sched 1 True,
           Request_shutdown, Sched 0 True, Sched 1 True] boot)
     = Inr 0
   \<and> map_sum id (map pc \<circ> goroutines)
     (run [Call_InterruptListener, Call_StartInterrupteListener, Sched 0 True, Sched 1 True,
           Request_shutdown, Sched 1 True, Sched 0 True] boot)
     = Inr [Select first_select, Select repeat_select]
   \<and> map_sum id (fst \<circ> poll 0)
     (run [Call_InterruptListener, Call_StartInterrupteListener, Sched 0 True, Sched 1 True,
           Request_shutdown, Sched 1 True, Sched 0 True] boot)
     = Inr False"
  by (simp add: run_eval)

text \<open>
  An instance of the amended claim: both listeners subscribed, one request raised and
  received by the feed-based listener, then an interrupt signal that reaches both.
\<close>

theorem C6_witness:
  "\<exists>w w'. run [Call_InterruptListener, Call_StartInterrupteListener, Sched 0 True,
               Sched 1 True, Request_shutdown, Sched 1 False] boot = Inr w
     \<and> shutdown_records w + pending w = 1
     \<and> map notify (goroutines w) = [[os_Interrupt], [os_Interrupt]]
     \<and> OS_deliver os_Interrupt w = Inr w'
     \<and> map interruptChannel (goroutines w') =
         [Some ((makechan 1)\<lparr>buf := [os_Interrupt]\<rparr>), Some ((makechan 1)\<lparr>buf := [os_Interrupt]\<rparr>)]"
proof -
  obtain w where w: "run [Call_InterruptListener, Call_StartInterrupteListener, Sched 0 True,
               Sched 1 True, Request_shutdown, Sched 1 False] boot = Inr w"
    and g: "length (goroutines w) = 2"
      "interruptChannel (goroutines w ! 0) = Some (makechan 1)"
      "interruptChannel (goroutines w ! 1) = Some (makechan 1)"
      "notify (goroutines w ! 0) = [os_Interrupt]" "notify (goroutines w ! 1) = [os_Interrupt]"
    by (simp add: run_eval)
  from C6_signals_fan_out_requests_do_not [OF w, of os_Interrupt] obtain w' where
    c: "shutdown_records w + pending w = count_list [Call_InterruptListener,
          Call_StartInterrupteListener, Sched 0 True, Sched 1 True, Request_shutdown,
          Sched 1 False] Request_shutdown"
    and d: "OS_deliver os_Interrupt w = Inr w'" "length (goroutines w') = length (goroutines w)"
    and f: "\<forall>i<length (goroutines w). \<forall>ic.
                interruptChannel (goroutines w ! i) = Some ic \<and> buf ic = []
                \<and> os_Interrupt \<in> set (notify (goroutines w ! i)) \<longrightarrow>
                interruptChannel (goroutines w' ! i) = Some (ic\<lparr>buf := [os_Interrupt]\<rparr>)"
    by blast
  have e: "buf (makechan 1 :: os_Signal hchan) = []" by (simp add: makechan_def)
  from f g e have "interruptChannel (goroutines w' ! 0) = Some ((makechan 1)\<lparr>buf := [os_Interrupt]\<rparr>)"
    "interruptChannel (goroutines w' ! 1) = Some ((makechan 1)\<lparr>buf := [os_Interrupt]\<rparr>)"
    by simp_all
  with d(2) g(1) have "map interruptChannel (goroutines w') =
         [Some ((makechan 1)\<lparr>buf := [os_Interrupt]\<rparr>), Some ((makechan 1)\<lparr>buf := [os_Interrupt]\<rparr>)]"
    by (simp add: list_eq_iff_nth_eq less_Suc_eq numeral_2_eq_2)
  moreover from g have "map notify (goroutines w) = [[os_Interrupt], [os_Interrupt]]"
    by (simp add: list_eq_iff_nth_eq less_Suc_eq numeral_2_eq_2)
  moreover from c have "shutdown_records w + pending w = 1" by simp
  moreover note w d(1)
  ultimately show ?thesis by (intro exI [of _ w] exI [of _ w'] conjI)
qed

text \<open>
  Claim C7. The request-shutdown operation takes the process state only and returns
  nothing but the new state. With a listener \<open>i\<close> parked at its select, alone or
  among others, one call leaves one raise pending; when \<open>i\<close> is scheduled next it
  receives the raise and logs one shutdown-request record, and nothing is pending
  after that. Every other listener \<open>j\<close> that was parked is untouched and still
  parked: running it changes nothing. One call wakes exactly one pending wait.
\<close>

theorem C7_request_shutdown_wakes_one:
  assumes "run tr boot = Inr w" and "parked i w"
  shows "\<exists>w1 w2 r. request_shutdown w = Inr w1 \<and> pending w1 = 1
           \<and> sched i pick w1 = Inr w2 \<and> pending w2 = 0
           \<and> logged w2 = logged w @ [r] \<and> is_shutdown_record r
           \<and> (\<forall>j. j \<noteq> i \<and> parked j w \<longrightarrow>
                 goroutines w2 ! j = goroutines w ! j \<and> parked j w2
                 \<and> (\<forall>pick'. sched j pick' w2 = Inr w2))"
proof -
  from wf_run [OF wf_boot, of tr] assms(1) have wf: "wf w" by simp
  from wf assms(2) obtain at ic where p: "i < length (goroutines w)"
    "pc (goroutines w ! i) = Select at" "interruptChannel (goroutines w ! i) = Some ic"
    "ic_ok ic" "buf ic = []" "sendq (shutdownRequestChannel w) = []"
    by (rule parked_wf)
  from wf have sc: "sc_ok (shutdownRequestChannel w)" by (simp add: wf_def)
  define w1 where "w1 = w\<lparr>shutdownRequestChannel := (shutdownRequestChannel w)\<lparr>sendq := [()]\<rparr>\<rparr>"
  have r1: "request_shutdown w = Inr w1"
    using sc p(6) by (simp add: request_shutdown_def chansend_def sc_ok_def w1_def)
  from wf_request_shutdown [OF wf] r1 have wf1: "wf w1" by simp
  have pend1: "pending w1 = 1" using sc by (simp add: pending_def w1_def sc_ok_def)
  have "\<exists>r cl' f'. resume (closure (goroutines w1 ! i)) at ShutdownRequest (InterruptFeed w1) =
              Inr (r, repeat_select, cl', f')
           \<and> is_shutdown_record r
           \<and> sched i pick w1 =
               Inr (w1\<lparr>shutdownRequestChannel := (shutdownRequestChannel w1)\<lparr>sendq := []\<rparr>,
                       InterruptFeed := f', logged := logged w1 @ [r],
                       goroutines := (goroutines w1)[i := (goroutines w1 ! i)\<lparr>closure := cl',
                         pc := Select repeat_select, interruptChannel := Some ic\<rparr>]\<rparr>)"
    by (rule sched_takes_raise [OF wf1]) (simp_all add: w1_def p)
  then obtain r cl' f' where rr: "is_shutdown_record r"
    and s: "sched i pick w1 =
               Inr (w1\<lparr>shutdownRequestChannel := (shutdownRequestChannel w1)\<lparr>sendq := []\<rparr>,
                       InterruptFeed := f', logged := logged w1 @ [r],
                       goroutines := (goroutines w1)[i := (goroutines w1 ! i)\<lparr>closure := cl',
                         pc := Select repeat_select, interruptChannel := Some ic\<rparr>]\<rparr>)"
    by blast
  define w2 where "w2 = w1\<lparr>shutdownRequestChannel := (shutdownRequestChannel w1)\<lparr>sendq := []\<rparr>,
                       InterruptFeed := f', logged := logged w1 @ [r],
                       goroutines := (goroutines w1)[i := (goroutines w1 ! i)\<lparr>closure := cl',
                         pc := Select repeat_select, interruptChannel := Some ic\<rparr>]\<rparr>"
  from s have s2: "sched i pick w1 = Inr w2" by (simp add: w2_def)
  from wf_sched [OF wf1, of i pick] s2 have wf2: "wf w2" by simp
  have sc2: "shutdownRequestChannel w2 = shutdownRequestChannel w"
    using p(6) by (simp add: w2_def w1_def)
  have lj: "length (goroutines w2) = length (goroutines w)" by (simp add: w2_def w1_def)
  have others: "goroutines w2 ! j = goroutines w ! j \<and> parked j w2
                 \<and> (\<forall>pick'. sched j pick' w2 = Inr w2)"
    if j: "j \<noteq> i" "parked j w" for j
  proof -
    have gj: "goroutines w2 ! j = goroutines w ! j"
      using j(1) by (simp add: w2_def w1_def)
    have pj: "parked j w2"
      using j(2) unfolding parked_def gj lj sc2 .
    from gj pj sched_parked [OF wf2 pj] show ?thesis by simp
  qed
  have "pending w2 = 0" using sc by (simp add: pending_def w2_def w1_def sc_ok_def)
  moreover have "logged w2 = logged w @ [r]" by (simp add: w2_def w1_def)
  moreover note r1 pend1 s2 rr others
  ultimately show ?thesis by blast
qed

text \<open>
  Two instances: a single listener parked, which the call wakes; and both listeners
  parked, of which the channel-based one is woken and the other stays parked.
\<close>

theorem C7_witness:
  "(\<exists>w w1 w2 r. run [Call_InterruptListener, Sched 0 True] boot = Inr w
      \<and> parked 0 w
      \<and> request_shutdown w = Inr w1 \<and> pending w1 = 1
      \<and> sched 0 False w1 = Inr w2 \<and> pending w2 = 0
      \<and> logged w2 = logged w @ [r] \<and> is_shutdown_record r)
   \<and> (\<exists>w w1 w2 r. run [Call_InterruptListener, Call_StartInterrupteListener,
                     Sched 0 True, Sched 1 True] boot = Inr w
      \<and> parked 0 w \<and> parked 1 w
      \<and> request_shutdown w = Inr w1 \<and> pending w1 = 1
      \<and> sched 0 True w1 = Inr w2 \<and> pending w2 = 0
      \<and> logged w2 = logged w @ [r] \<and> is_shutdown_record r
      \<and> goroutines w2 ! 1 = goroutines w ! 1 \<and> parked 1 w2 \<and> sched 1 False w2 = Inr w2)"
proof
  obtain w where w: "run [Call_InterruptListener, Sched 0 True] boot = Inr w"
    and p: "parked 0 w"
    by (simp add: run_eval)
  from C7_request_shutdown_wakes_one [OF w p, of False] obtain w1 w2 r where
    "request_shutdown w = Inr w1" "pending w1 = 1" "sched 0 False w1 = Inr w2" "pending w2 = 0"
    "logged w2 = logged w @ [r]" "is_shutdown_record r"
    by blast
  with w p show "\<exists>w w1 w2 r. run [Call_InterruptListener, Sched 0 True] boot = Inr w
      \<and> parked 0 w
      \<and> request_shutdown w = Inr w1 \<and> pending w1 = 1
      \<and> sched 0 False w1 = Inr w2 \<and> pending w2 = 0
      \<and> logged w2 = logged w @ [r] \<and> is_shutdown_record r"
    by (intro exI [of _ w] exI [of _ w1] exI [of _ w2] exI [of _ r] conjI)
next
  obtain w where w: "run [Call_InterruptListener, Call_StartInterrupteListener,
                     Sched 0 True, Sched 1 True] boot = Inr w"
    and p: "parked 0 w" "parked 1 w"
    by (simp add: run_eval)
  from C7_request_shutdown_wakes_one [OF w p(1), of True] obtain w1 w2 r where
    k: "request_shutdown w = Inr w1" "pending w1 = 1" "sched 0 True w1 = Inr w2" "pending w2 = 0"
    "logged w2 = logged w @ [r]" "is_shutdown_record r"
    and o: "\<forall>j. j \<noteq> 0 \<and> parked j w \<longrightarrow>
                 goroutines w2 ! j = goroutines w ! j \<and> parked j w2
                 \<and> (\<forall>pick'. sched j pick' w2 = Inr w2)"
    by blast
  from o p(2) have "goroutines w2 ! 1 = goroutines w ! 1" "parked 1 w2" "sched 1 False w2 = Inr w2"
    by simp_all
  with w p k show "\<exists>w w1 w2 r. run [Call_InterruptListener, Call_StartInterrupteListener,
                     Sched 0 True, Sched 1 True] boot = Inr w
      \<and> parked 0 w \<and> parked 1 w
      \<and> request_shutdown w = Inr w1 \<and> pending w1 = 1
      \<and> sched 0 True w1 = Inr w2 \<and> pending w2 = 0
      \<and> logged w2 = logged w @ [r] \<and> is_shutdown_record r
      \<and> goroutines w2 ! 1 = goroutines w ! 1 \<and> parked 1 w2 \<and> sched 1 False w2 = Inr w2"
    by (intro exI [of _ w] exI [of _ w1] exI [of _ w2] exI [of _ r] conjI)
qed

text \<open>
  Claim C8. \<^verbatim>\<open>interruptSignals\<close> starts as the single signal \<^verbatim>\<open>os.Interrupt\<close>.
  No sequence of operations of the component, from any state (so also from one whose
  signal set a platform's initialisation has replaced), changes
  \<^verbatim>\<open>interruptSignals\<close>, and none changes the signal set a listener has subscribed
  with. So when every listener subscribed so far is subscribed to the value of
  \<^verbatim>\<open>interruptSignals\<close>, that stays so for every listener, old and new.
\<close>

theorem C8_signal_set_is_fixed:
  assumes "run tr w = Inr w'"
  shows "interruptSignals boot = [os_Interrupt]
     \<and> interruptSignals w' = interruptSignals w
     \<and> (\<forall>i<length (goroutines w). pc (goroutines w ! i) \<noteq> Entry \<longrightarrow>
           notify (goroutines w' ! i) = notify (goroutines w ! i))
     \<and> (list_all (\<lambda>g. pc g = Entry \<or> notify g = interruptSignals w) (goroutines w) \<longrightarrow>
          list_all (\<lambda>g. pc g = Entry \<or> notify g = interruptSignals w) (goroutines w'))"
  using run_interruptSignals [OF assms] run_goroutine [OF assms] run_subscribed [OF assms refl]
  by (simp add: boot_def)

text \<open>
  An instance: the signal set replaced before any listener starts, a feed-based
  listener subscribed, then a signal, a run of the listener and a second listener.
\<close>

theorem C8_witness:
  "\<exists>w w'. run [Call_StartInterrupteListener, Sched 0 True]
             (boot\<lparr>interruptSignals := [os_Interrupt, syscall_SIGTERM]\<rparr>) = Inr w
     \<and> pc (goroutines w ! 0) \<noteq> Entry
     \<and> run [OS_signal syscall_SIGTERM, Sched 0 True, Call_InterruptListener, Sched 1 True] w
         = Inr w'
     \<and> interruptSignals w' = [os_Interrupt, syscall_SIGTERM]
     \<and> notify (goroutines w' ! 0) = [os_Interrupt, syscall_SIGTERM]
     \<and> list_all (\<lambda>g. pc g = Entry \<or> notify g = [os_Interrupt, syscall_SIGTERM]) (goroutines w')"
proof -
  obtain w where w: "run [Call_StartInterrupteListener, Sched 0 True]
             (boot\<lparr>interruptSignals := [os_Interrupt, syscall_SIGTERM]\<rparr>) = Inr w"
    and g: "interruptSignals w = [os_Interrupt, syscall_SIGTERM]" "0 < length (goroutines w)"
      "pc (goroutines w ! 0) \<noteq> Entry" "notify (goroutines w ! 0) = [os_Interrupt, syscall_SIGTERM]"
      "list_all (\<lambda>g. pc g = Entry \<or> notify g = [os_Interrupt, syscall_SIGTERM]) (goroutines w)"
    by (simp add: run_eval)
  obtain w' where w': "run [OS_signal syscall_SIGTERM, Sched 0 True, Call_InterruptListener,
      Sched 1 True] w = Inr w'"
    using w by (auto simp: run_eval)
  from C8_signal_set_is_fixed [OF w'] g
  have "interruptSignals w' = [os_Interrupt, syscall_SIGTERM]"
    "notify (goroutines w' ! 0) = [os_Interrupt, syscall_SIGTERM]"
    "list_all (\<lambda>g. pc g = Entry \<or> notify g = [os_Interrupt, syscall_SIGTERM]) (goroutines w')"
    by simp_all
  with w w' g(3) show ?thesis by blast
qed

text \<open>
  Claim C9. In every state the process can reach, \<^verbatim>\<open>shutdownRequestChannel\<close> has
  capacity zero and an empty buffer, and every listener past its entry has a signal
  channel of its own with capacity exactly one that holds at most one signal. When
  the signals \<open>s # sigs\<close> arrive while a listener subscribed to \<open>s\<close> with an empty
  buffer is not run, the buffer keeps \<open>s\<close> and drops the rest; the listener's next
  select receives \<open>s\<close>, logs it and leaves the buffer empty.
\<close>

theorem C9_signal_channel_has_one_slot:
  assumes "run tr boot = Inr w"
  shows "dataqsiz (shutdownRequestChannel w) = 0 \<and> buf (shutdownRequestChannel w) = []
     \<and> list_all (\<lambda>g. case interruptChannel g of
                       None \<Rightarrow> pc g = Entry
                     | Some ic \<Rightarrow> dataqsiz ic = 1 \<and> length (buf ic) \<le> 1) (goroutines w)
     \<and> (\<forall>i<length (goroutines w). \<forall>ic.
           interruptChannel (goroutines w ! i) = Some ic \<and> buf ic = []
           \<and> s \<in> set (notify (goroutines w ! i)) \<longrightarrow>
           (\<exists>w' w'' r. run (map OS_signal (s # sigs)) w = Inr w'
              \<and> interruptChannel (goroutines w' ! i) = Some (ic\<lparr>buf := [s]\<rparr>)
              \<and> sched i True w' = Inr w'' \<and> logged w'' = logged w' @ [r]
              \<and> (r = first_msg (Signal s) \<or> r = repeat_msg (Signal s))
              \<and> interruptChannel (goroutines w'' ! i) = Some (ic\<lparr>buf := []\<rparr>)))"
proof -
  from wf_run [OF wf_boot, of tr] assms have wf: "wf w" by simp
  then have sc: "dataqsiz (shutdownRequestChannel w) = 0 \<and> buf (shutdownRequestChannel w) = []"
    by (simp add: wf_def sc_ok_def)
  have "case interruptChannel g of
          None \<Rightarrow> pc g = Entry
        | Some ic \<Rightarrow> dataqsiz ic = 1 \<and> length (buf ic) \<le> 1" if "g_ok g" for g
    using that by (auto simp: g_ok_def ic_ok_def split: option.splits)
  with wf have chans: "list_all (\<lambda>g. case interruptChannel g of
                       None \<Rightarrow> pc g = Entry
                     | Some ic \<Rightarrow> dataqsiz ic = 1 \<and> length (buf ic) \<le> 1) (goroutines w)"
    by (simp add: wf_def list_all_iff)
  have keep: "\<exists>w' w'' r. run (map OS_signal (s # sigs)) w = Inr w'
              \<and> interruptChannel (goroutines w' ! i) = Some (ic\<lparr>buf := [s]\<rparr>)
              \<and> sched i True w' = Inr w'' \<and> logged w'' = logged w' @ [r]
              \<and> (r = first_msg (Signal s) \<or> r = repeat_msg (Signal s))
              \<and> interruptChannel (goroutines w'' ! i) = Some (ic\<lparr>buf := []\<rparr>)"
    if i: "i < length (goroutines w)" and ic: "interruptChannel (goroutines w ! i) = Some ic"
      and e: "buf ic = []" and n: "s \<in> set (notify (goroutines w ! i))" for i ic
  proof -
    from OS_deliver_fanout [OF wf, of s] i ic e n obtain w1 where
      w1: "OS_deliver s w = Inr w1" "length (goroutines w1) = length (goroutines w)"
        "interruptChannel (goroutines w1 ! i) = Some (ic\<lparr>buf := [s]\<rparr>)"
      by blast
    from wf_OS_deliver [OF wf, of s] w1(1) have wf1: "wf w1" by simp
    from w1(2) i have i1: "i < length (goroutines w1)" by simp
    from run_signals_full [OF wf1 i1 w1(3), of s sigs] obtain w' where
      w': "run (map OS_signal sigs) w1 = Inr w'" "wf w'" "i < length (goroutines w')"
        "goroutines w' ! i = goroutines w1 ! i"
      by auto
    from w'(4) w1(3) have c': "interruptChannel (goroutines w' ! i) = Some (ic\<lparr>buf := [s]\<rparr>)"
      by simp
    from sched_takes_signal [OF w'(2,3) c', of s] obtain w'' r where
      "sched i True w' = Inr w''" "logged w'' = logged w' @ [r]"
      "r = first_msg (Signal s) \<or> r = repeat_msg (Signal s)"
      "interruptChannel (goroutines w'' ! i) = Some (ic\<lparr>buf := []\<rparr>)"
      by auto
    moreover from w1(1) w'(1) have "run (map OS_signal (s # sigs)) w = Inr w'" by simp
    ultimately show ?thesis using c' by blast
  qed
  from sc chans keep show ?thesis by blast
qed

text \<open>An instance: three interrupts arrive before the listener runs again.\<close>

theorem C9_witness:
  "\<exists>w w' w''. run [Call_InterruptListener, Sched 0 True] boot = Inr w
     \<and> run (map OS_signal [os_Interrupt, os_Interrupt, os_Interrupt]) w = Inr w'
     \<and> interruptChannel (goroutines w' ! 0) = Some ((makechan 1)\<lparr>buf := [os_Interrupt]\<rparr>)
     \<and> sched 0 True w' = Inr w''
     \<and> logged w'' = logged w' @ [first_msg (Signal os_Interrupt)]
     \<and> interruptChannel (goroutines w'' ! 0) = Some ((makechan 1)\<lparr>buf := []\<rparr>)"
proof -
  obtain w where w: "run [Call_InterruptListener, Sched 0 True] boot = Inr w"
    and g: "0 < length (goroutines w)" "interruptChannel (goroutines w ! 0) = Some (makechan 1)"
      "os_Interrupt \<in> set (notify (goroutines w ! 0))"
    by (simp add: run_eval)
  have e: "buf (makechan 1 :: os_Signal hchan) = []" by (simp add: makechan_def)
  from C9_signal_channel_has_one_slot [OF w, of os_Interrupt "[os_Interrupt, os_Interrupt]"]
  have "\<forall>i<length (goroutines w). \<forall>ic.
           interruptChannel (goroutines w ! i) = Some ic \<and> buf ic = []
           \<and> os_Interrupt \<in> set (notify (goroutines w ! i)) \<longrightarrow>
           (\<exists>w' w'' r. run (map OS_signal (os_Interrupt # [os_Interrupt, os_Interrupt])) w = Inr w'
              \<and> interruptChannel (goroutines w' ! i) = Some (ic\<lparr>buf := [os_Interrupt]\<rparr>)
              \<and> sched i True w' = Inr w'' \<and> logged w'' = logged w' @ [r]
              \<and> (r = first_msg (Signal os_Interrupt) \<or> r = repeat_msg (Signal os_Interrupt))
              \<and> interruptChannel (goroutines w'' ! i) = Some (ic\<lparr>buf := []\<rparr>))"
    by blast
  with g e obtain w' w'' r where
    k: "run (map OS_signal [os_Interrupt, os_Interrupt, os_Interrupt]) w = Inr w'"
      "interruptChannel (goroutines w' ! 0) = Some ((makechan 1)\<lparr>buf := [os_Interrupt]\<rparr>)"
      "sched 0 True w' = Inr w''" "logged w'' = logged w' @ [r]"
      "interruptChannel (goroutines w'' ! 0) = Some ((makechan 1)\<lparr>buf := []\<rparr>)"
    by blast
  from w k(1,3,4) have "r = first_msg (Signal os_Interrupt)"
    by (auto simp: run_eval)
  with w k show ?thesis by blast
qed

text \<open>
  Claim C10. In every state the process can reach, \<^verbatim>\<open>InterruptRequested\<close> on any
  handle leaves the whole state as it was, so a second call gives the same answer
  and nothing is consumed; and once it has answered true for a handle it answers true
  in every state that follows, whatever happens in between.
\<close>

theorem C10_InterruptRequested_observes_only:
  assumes "run tr boot = Inr w"
  shows "snd (poll h w) = w
     \<and> poll h (snd (poll h w)) = poll h w
     \<and> (fst (poll h w) \<longrightarrow> (\<forall>tr' w'. run tr' w = Inr w' \<longrightarrow> fst (poll h w')))"
proof -
  from wf_run [OF wf_boot, of tr] assms have wf: "wf w" by simp
  have same: "snd (poll h w) = w" by (simp add: poll_wf [OF wf])
  have mono: "fst (poll h w')" if p: "fst (poll h w)" and r: "run tr' w = Inr w'" for tr' w'
  proof -
    from wf_run [OF wf, of tr'] r have wf': "wf w'" by simp
    from p obtain c where c: "handle_chan h w = Some c" "closed c"
      by (auto simp: poll_wf [OF wf] split: option.splits)
    then have h: "h < length (goroutines w)"
      and cl: "closure (goroutines w ! h) = InterruptListener_closure c"
      by (auto simp: handle_chan_def split: if_splits closure.splits)
    from wf_nth [OF wf h] cl c(2) have "pc (goroutines w ! h) = Select repeat_select"
      by (simp add: g_ok_def)
    with run_goroutine [OF r h] cl have h': "h < length (goroutines w')"
      and pc': "pc (goroutines w' ! h) = Select repeat_select"
      and k: "closure (goroutines w' ! h) \<noteq> StartInterrupteListener_closure"
      by simp_all
    from k obtain c' where cl': "closure (goroutines w' ! h) = InterruptListener_closure c'"
      by (cases "closure (goroutines w' ! h)") auto
    from wf_nth [OF wf' h'] cl' pc' have "closed c'" by (simp add: g_ok_def)
    with h' cl' show ?thesis by (simp add: poll_wf [OF wf'] handle_chan_def)
  qed
  from same mono show ?thesis by auto
qed

text \<open>
  An instance: the listener fired on an interrupt; the poll is true and stays true
  after a further shutdown request.
\<close>

theorem C10_witness:
  "\<exists>w w'. run [Call_InterruptListener, Sched 0 True, OS_signal os_Interrupt, Sched 0 True] boot
             = Inr w
     \<and> fst (poll 0 w) \<and> snd (poll 0 w) = w \<and> poll 0 (snd (poll 0 w)) = poll 0 w
     \<and> run [Request_shutdown, Sched 0 True, Call_InterruptRequested 0] w = Inr w'
     \<and> fst (poll 0 w')"
proof -
  obtain w where w: "run [Call_InterruptListener, Sched 0 True, OS_signal os_Interrupt,
      Sched 0 True] boot = Inr w"
    and p: "fst (poll 0 w)"
    by (simp add: run_eval)
  obtain w' where w': "run [Request_shutdown, Sched 0 True, Call_InterruptRequested 0] w = Inr w'"
    using w by (auto simp: run_eval)
  from C10_InterruptRequested_observes_only [OF w, of 0] p w' w show ?thesis
    by blast
qed

end
